theory Spec2Isabelle
  imports Complex_Main
begin

section \<open>Strings and the two regular expressions of the component\<close>

text \<open>
  A JavaScript string is modelled as a \<^typ>\<open>string\<close>. The patterns of the component
  only name ASCII characters, and the flag \<^verbatim>\<open>i\<close> (without \<^verbatim>\<open>u\<close>) never
  identifies a non-ASCII character with an ASCII one, so case-insensitive comparison is
  comparison after mapping the letters A-Z to a-z.
\<close>

definition canon :: "char \<Rightarrow> char" where
  "canon c = (case map_of (zip ''ABCDEFGHIJKLMNOPQRSTUVWXYZ'' ''abcdefghijklmnopqrstuvwxyz'') c of
                Some l \<Rightarrow> l
              | None \<Rightarrow> c)"

text \<open>\<open>ci_prefix p s\<close>: the literal \<open>p\<close> matches at the start of \<open>s\<close>, ignoring case.\<close>

fun ci_prefix :: "string \<Rightarrow> string \<Rightarrow> bool" where
  "ci_prefix [] s = True"
| "ci_prefix (p # ps) [] = False"
| "ci_prefix (p # ps) (c # cs) = (canon p = canon c \<and> ci_prefix ps cs)"

text \<open>
  The tail \<^verbatim>\<open>[\s\S]*?<\/svg>\<close> of the pattern: the lazy star takes as few characters
  as possible, so the match ends at the first closing tag. The result is the matched
  text and the text left after it; \<open>None\<close> when no closing tag follows.
\<close>

fun lazy_until_close :: "string \<Rightarrow> (string \<times> string) option" where
  "lazy_until_close [] = None"
| "lazy_until_close (c # cs) =
     (if ci_prefix ''</svg>'' (c # cs) then Some (take 6 (c # cs), drop 6 (c # cs))
      else (case lazy_until_close cs of
              None \<Rightarrow> None
            | Some (m, r) \<Rightarrow> Some (c # m, r)))"

lemma lazy_until_close_length:
  "lazy_until_close s = Some (m, r) \<Longrightarrow> length r < length s"
  by (induction s arbitrary: m r) (auto split: if_splits option.splits)

text \<open>
  \<^verbatim>\<open>str.match(/<svg[\s\S]*?<\/svg>/gi)\<close>: all matches from left to right, each search
  starting where the previous match ended; a position where the pattern does not match
  is passed over.
\<close>

function match_global :: "string \<Rightarrow> string list" where
  "match_global [] = []"
| "match_global (c # cs) =
     (if ci_prefix ''<svg'' (c # cs) then
        (case lazy_until_close (drop 4 (c # cs)) of
           Some (m, r) \<Rightarrow> (take 4 (c # cs) @ m) # match_global r
         | None \<Rightarrow> match_global cs)
      else match_global cs)"
  by pat_completeness auto
termination
proof (relation "measure length")
  show "wf (measure length)" by simp
next
  fix c :: char and cs x2 x y
  assume "lazy_until_close (drop 4 (c # cs)) = Some x2" and "(x, y) = x2"
  then have "length y < length (drop 4 (c # cs))"
    using lazy_until_close_length [of "drop 4 (c # cs)" x y] by simp
  then show "(y, c # cs) \<in> measure length" by simp
qed simp_all

text \<open>\<^verbatim>\<open>String.prototype.match\<close> with the flag \<^verbatim>\<open>g\<close> answers \<^verbatim>\<open>null\<close> when nothing matches.\<close>

definition js_match :: "string \<Rightarrow> string list option" where
  "js_match s = (case match_global s of [] \<Rightarrow> None | m # ms \<Rightarrow> Some (m # ms))"


text \<open>\<^verbatim>\<open>s.includes(p)\<close>: \<open>p\<close> occurs in \<open>s\<close> (exact comparison).\<close>

fun js_includes :: "string \<Rightarrow> string \<Rightarrow> bool" where
  "js_includes [] p = (p = [])"
| "js_includes (c # cs) p = (take (length p) (c # cs) = p \<or> js_includes cs p)"

text \<open>
  \<^verbatim>\<open>svg.match(/viewBox=["']([^"']+)["']/i)\<close>, reduced to its capture group. At one
  position the pattern needs the attribute name, a quote, a non-empty run of characters
  that are not quotes, and a quote right after the longest such run.
\<close>

definition is_quote :: "char \<Rightarrow> bool" where
  "is_quote c \<longleftrightarrow> c = CHR ''\"'' \<or> c = CHR 0x27"

definition viewBox_at :: "string \<Rightarrow> string option" where
  "viewBox_at s =
     (if ci_prefix ''viewBox='' s then
        (case drop 8 s of
           [] \<Rightarrow> None
         | q # rest \<Rightarrow>
             if is_quote q \<and> takeWhile (\<lambda>c. \<not> is_quote c) rest \<noteq> []
                \<and> dropWhile (\<lambda>c. \<not> is_quote c) rest \<noteq> []
             then Some (takeWhile (\<lambda>c. \<not> is_quote c) rest)
             else None)
      else None)"

fun viewBox_match :: "string \<Rightarrow> string option" where
  "viewBox_match [] = None"
| "viewBox_match (c # cs) =
     (case viewBox_at (c # cs) of Some v \<Rightarrow> Some v | None \<Rightarrow> viewBox_match cs)"

text \<open>
  \<^verbatim>\<open>v.split(/\s+/)\<close>. The class \<^verbatim>\<open>\s\<close> is taken on the characters a \<^typ>\<open>char\<close>
  can hold: space, tab, line feed, vertical tab, form feed, carriage return and the
  no-break space.
\<close>

definition is_space :: "char \<Rightarrow> bool" where
  "is_space c \<longleftrightarrow> c \<in> set [CHR 0x20, CHR 0x09, CHR 0x0A, CHR 0x0B, CHR 0x0C, CHR 0x0D, CHR 0xA0]"

function split_ws :: "string \<Rightarrow> string list" where
  "split_ws s =
     (if dropWhile (\<lambda>c. \<not> is_space c) s = [] then [s]
      else takeWhile (\<lambda>c. \<not> is_space c) s
           # split_ws (dropWhile is_space (dropWhile (\<lambda>c. \<not> is_space c) s)))"
  by pat_completeness auto
termination
proof (relation "measure length")
  show "wf (measure length)" by simp
next
  fix s :: string
  assume ne: "dropWhile (\<lambda>c. \<not> is_space c) s \<noteq> []"
  let ?r = "dropWhile (\<lambda>c. \<not> is_space c) s"
  from ne have "is_space (hd ?r)" using hd_dropWhile [of "\<lambda>c. \<not> is_space c" s] by simp
  with ne have "length (dropWhile is_space ?r) < length ?r"
    by (cases ?r) (auto simp: less_Suc_eq_le length_dropWhile_le)
  also have "length ?r \<le> length s" by (rule length_dropWhile_le)
  finally show "(dropWhile is_space ?r, s) \<in> measure length" by simp
qed

text \<open>\<^verbatim>\<open>xs[i]\<close> on an array: \<^verbatim>\<open>undefined\<close> (here \<open>None\<close>) out of range.\<close>

definition js_index :: "'a list \<Rightarrow> nat \<Rightarrow> 'a option" where
  "js_index xs i = (if i < length xs then Some (xs ! i) else None)"

section \<open>Numbers and thrown values\<close>

text \<open>
  A JavaScript number up to \<^verbatim>\<open>===\<close>: not-a-number, a finite value (the two zeros are
  one value) or an infinity. \<^verbatim>\<open>a !== b\<close> holds whenever one side is not-a-number.
\<close>

datatype jsnum = NaN | Finite rat | PosInfinity | NegInfinity

definition strict_neq :: "jsnum \<Rightarrow> jsnum \<Rightarrow> bool" where
  "strict_neq a b \<longleftrightarrow> a = NaN \<or> b = NaN \<or> a \<noteq> b"

text \<open>
  \<^verbatim>\<open>Number.parseFloat\<close> is a parameter \<open>pf\<close> of the model; applied to
  \<^verbatim>\<open>undefined\<close> it parses the text \<^verbatim>\<open>undefined\<close>.
\<close>

definition parse_entry :: "(string \<Rightarrow> jsnum) \<Rightarrow> string option \<Rightarrow> jsnum" where
  "parse_entry pf v = (case v of None \<Rightarrow> pf ''undefined'' | Some s \<Rightarrow> pf s)"

text \<open>
  A value that reaches a \<^verbatim>\<open>catch\<close>: an instance of \<^verbatim>\<open>Error\<close> with its name and
  message, or any other value.
\<close>

datatype thrown = ErrorObject string string | OtherValue string

definition abortError :: thrown where
  "abortError = ErrorObject ''AbortError'' ''Aborted''"

definition is_abort :: "thrown \<Rightarrow> bool" where
  "is_abort e =
     (case e of
        ErrorObject name message \<Rightarrow> name = ''AbortError'' \<or> js_includes message ''Aborted''
      | OtherValue _ \<Rightarrow> False)"


section \<open>State of the hook and of the component\<close>

text \<open>
  Every \<^verbatim>\<open>addLog\<close> and \<^verbatim>\<open>toast\<close> call of the modelled functions is one
  constructor, carrying the values interpolated into its text. The time stamp that
  \<^verbatim>\<open>addLog\<close> puts in front of a message is left out.
\<close>

datatype log =
    LogStarting | LogPrompt string | LogModel string | LogSize jsnum | LogCurrentColor bool
  | LogStoppedByUser | LogRetryAttempt nat nat | LogResetting nat | LogStartingAttempt nat bool
  | LogProgress nat string | LogStreamStarted nat | LogStreamEnded nat | LogCompleted
  | LogNoSvgTag | LogRetrying | LogInvalidFormat | LogSizeMismatch jsnum jsnum jsnum
  | LogNoValidSvg | LogValidationPassed nat | LogSkipping | LogFailed nat thrown
  | LogStopRequested | LogSkipRequested | LogModelChanged string

datatype toast =
    ToastNoSvg | ToastNoValid | ToastGenerated nat "nat option" | ToastThrown thrown
  | ToastMaxRetries | ToastStopped | ToastSkipping

datatype status_text =
    StatusWaiting | StatusInitializing | StatusReady | StatusAborted | StatusError
  | StatusGenerating | StatusProgress string

text \<open>
  The refs and state variables of \<^verbatim>\<open>useWebLLM\<close> and \<^verbatim>\<open>SVGGenerator\<close> that the
  modelled functions read or write. An engine handle and an \<^verbatim>\<open>AbortController\<close> are
  numbers: \<open>controllers\<close> counts the controllers constructed so far, and a new one
  gets that count as its identity. \<open>interrupted\<close> lists the engines whose
  \<^verbatim>\<open>interruptGenerate\<close> was called. \<open>currentOutput\<close> is the local variable of
  \<^verbatim>\<open>handleGenerate\<close> that its \<^verbatim>\<open>onChunk\<close> closure updates.
\<close>

record state =
  engineRef :: "nat option"
  currentModelRef :: "string option"
  isInitializing :: bool
  isGenerating :: bool
  progress :: nat
  statusText :: status_text
  interrupted :: "nat list"
  selectedModel :: string
  cachedModels :: "string set"
  aiRawOutput :: string
  extractedSVGs :: "string list"
  selectedSVGIndex :: int
  debugLogs :: "log list"
  elapsedTime :: nat
  startTime :: "nat option"
  abortControllerRef :: "nat option"
  controllers :: nat
  shouldStopRef :: bool
  toasts :: "toast list"
  currentOutput :: string

definition addLog :: "log \<Rightarrow> state \<Rightarrow> state" where
  "addLog m st = st\<lparr>debugLogs := debugLogs st @ [m]\<rparr>"

definition show_toast :: "toast \<Rightarrow> state \<Rightarrow> state" where
  "show_toast t st = st\<lparr>toasts := toasts st @ [t]\<rparr>"

text \<open>The parameters \<^verbatim>\<open>handleGenerate\<close> passes to every \<^verbatim>\<open>generateSVG\<close> call.\<close>

record request =
  modelId :: string
  prompt :: string
  size_px :: jsnum
  maxTokens :: jsnum
  temperature :: jsnum
  useCurrentColor :: bool

section \<open>The hook: engine, interrupt, cache\<close>

definition resetEngine :: "state \<Rightarrow> state" where
  "resetEngine st =
     st\<lparr>engineRef := None, currentModelRef := None, statusText := StatusWaiting, progress := 0\<rparr>"

definition handleModelChange :: "string \<Rightarrow> state \<Rightarrow> state" where
  "handleModelChange v st = addLog (LogModelChanged v) (resetEngine (st\<lparr>selectedModel := v\<rparr>))"

definition interruptGenerate :: "state \<Rightarrow> state" where
  "interruptGenerate st =
     (case engineRef st of
        None \<Rightarrow> st
      | Some engine \<Rightarrow> st\<lparr>interrupted := interrupted st @ [engine]\<rparr>)"

text \<open>
  The two buttons shown while the hook initialises or generates. Each handler is taken
  as one step: the statements after its \<^verbatim>\<open>await interruptGenerate()\<close> run with it.
  The \<^verbatim>\<open>Select\<close> of the model is not disabled during a call, so a change of model is
  a third action of the user while \<^verbatim>\<open>generateSVG\<close> runs. A click on a thumbnail of
  the preview, which sets \<^verbatim>\<open>selectedSVGIndex\<close>, is not among the actions modelled.
\<close>

definition handleStop :: "state \<Rightarrow> state" where
  "handleStop st =
     (case abortControllerRef st of
        None \<Rightarrow> st
      | Some _ \<Rightarrow>
          show_toast ToastStopped
            ((interruptGenerate (addLog LogStopRequested (st\<lparr>shouldStopRef := True\<rparr>)))
               \<lparr>abortControllerRef := None, startTime := None\<rparr>))"

definition handleRetry :: "state \<Rightarrow> state" where
  "handleRetry st =
     (case abortControllerRef st of
        None \<Rightarrow> st
      | Some _ \<Rightarrow> show_toast ToastSkipping (interruptGenerate (addLog LogSkipRequested st)))"

datatype user_action = PressStop | PressRetry | SelectModel string

definition click :: "user_action \<Rightarrow> state \<Rightarrow> state" where
  "click a st =
     (case a of
        PressStop \<Rightarrow> handleStop st
      | PressRetry \<Rightarrow> handleRetry st
      | SelectModel v \<Rightarrow> handleModelChange v st)"

text \<open>
  What the world does during one \<^verbatim>\<open>generateSVG\<close> call. While
  \<^verbatim>\<open>CreateMLCEngine\<close> runs (only when no engine is reused) it reports progress, as a
  rounded percentage and a text, and the user may click; it ends with an engine or with a
  thrown value. \<open>clock\<close> is \<^verbatim>\<open>Date.now()\<close> when the stream starts.
  \<^verbatim>\<open>engine.chat.completions.create\<close> may throw; the stream then yields chunks, each
  with its \<^verbatim>\<open>delta.content\<close> or the empty string, between clicks of the user; it ends
  normally or by throwing.
\<close>

datatype init_event = InitProgress nat string | InitClick user_action

datatype stream_event = Chunk string | StreamClick user_action

record attempt_script =
  init_events :: "init_event list"
  create_engine :: "thrown + nat"
  clock :: nat
  open_stream :: "thrown option"
  stream_events :: "stream_event list"
  stream_end :: "thrown option"

text \<open>
  No function of the repository calls \<^verbatim>\<open>abort()\<close> on a controller, so the flag
  \<^verbatim>\<open>aborted\<close> of every signal is false whenever it is read.
\<close>

definition signal_aborted :: "nat option \<Rightarrow> bool" where
  "signal_aborted signal = False"

text \<open>
  \<^verbatim>\<open>initProgressCallback\<close> with the \<^verbatim>\<open>onProgress\<close> that \<^verbatim>\<open>handleGenerate\<close>
  passes, or a click.
\<close>

definition init_step :: "nat option \<Rightarrow> init_event \<Rightarrow> state \<Rightarrow> thrown + state" where
  "init_step signal ev st =
     (case ev of
        InitProgress percent text \<Rightarrow>
          if signal_aborted signal then Inl abortError
          else Inr (addLog (LogProgress percent text)
                      (st\<lparr>progress := percent, statusText := StatusProgress text\<rparr>))
      | InitClick a \<Rightarrow> Inr (click a st))"

fun init_run :: "nat option \<Rightarrow> init_event list \<Rightarrow> state \<Rightarrow> thrown option \<times> state" where
  "init_run signal [] st = (None, st)"
| "init_run signal (ev # evs) st =
     (case init_step signal ev st of
        Inl e \<Rightarrow> (Some e, st)
      | Inr st' \<Rightarrow> init_run signal evs st')"

definition init_failed :: "thrown \<Rightarrow> state \<Rightarrow> state" where
  "init_failed e st =
     (if is_abort e then st\<lparr>statusText := StatusAborted\<rparr>
      else st\<lparr>engineRef := None, currentModelRef := None, statusText := StatusError\<rparr>)
     \<lparr>isInitializing := False\<rparr>"

text \<open>
  \<^verbatim>\<open>initializeEngine\<close>: the engine is reused when one is held for the requested
  model; otherwise \<open>initialize_fresh\<close> is the rest of the function, which creates one.
\<close>

definition initialize_fresh ::
  "string \<Rightarrow> nat option \<Rightarrow> attempt_script \<Rightarrow> state \<Rightarrow> (thrown + nat) \<times> state" where
  "initialize_fresh model signal sc st =
     (if signal_aborted signal then (Inl abortError, st)
      else
        (case init_run signal (init_events sc)
                (st\<lparr>isInitializing := True, statusText := StatusInitializing\<rparr>) of
           (Some e, st') \<Rightarrow> (Inl e, init_failed e st')
         | (None, st') \<Rightarrow>
             (case create_engine sc of
                Inl e \<Rightarrow> (Inl e, init_failed e st')
              | Inr engine \<Rightarrow>
                  (Inr engine,
                   st'\<lparr>engineRef := Some engine, currentModelRef := Some model,
                       statusText := StatusReady, progress := 100,
                       isInitializing := False\<rparr>))))"

definition initializeEngine ::
  "string \<Rightarrow> nat option \<Rightarrow> attempt_script \<Rightarrow> state \<Rightarrow> (thrown + nat) \<times> state" where
  "initializeEngine model signal sc st =
     (case engineRef st of
        Some engine \<Rightarrow>
          if currentModelRef st = Some model then (Inr engine, st)
          else initialize_fresh model signal sc st
      | None \<Rightarrow> initialize_fresh model signal sc st)"













section \<open>One streaming call\<close>

text \<open>
  The callbacks that \<^verbatim>\<open>handleGenerate\<close> passes to \<^verbatim>\<open>generateSVG\<close>. \<open>isSvg\<close> is
  the check imported from the package is-svg, a parameter of the model.
\<close>

definition onChunk :: "(string \<Rightarrow> bool) \<Rightarrow> string \<Rightarrow> state \<Rightarrow> state" where
  "onChunk isSvg chunk st =
     (if chunk = [] then st
      else
        (let st' = st\<lparr>currentOutput := currentOutput st @ chunk,
                       aiRawOutput := currentOutput st @ chunk\<rparr>
         in (case js_match (currentOutput st') of
               None \<Rightarrow> st'
             | Some matches \<Rightarrow>
                 if length matches > 0 then st'\<lparr>extractedSVGs := filter isSvg matches\<rparr>
                 else st')))"

definition onGenerationStart :: "nat \<Rightarrow> nat \<Rightarrow> state \<Rightarrow> state" where
  "onGenerationStart attempt now st = (addLog (LogStreamStarted attempt) st)\<lparr>startTime := Some now\<rparr>"

definition onGenerationEnd :: "nat \<Rightarrow> state \<Rightarrow> state" where
  "onGenerationEnd attempt st = (addLog (LogStreamEnded attempt) st)\<lparr>startTime := None\<rparr>"

text \<open>
  The \<^verbatim>\<open>for await\<close> loop of \<^verbatim>\<open>generateSVG\<close>, with \<^verbatim>\<open>fullResponse\<close> as
  accumulator, and the clicks that arrive while it waits for a chunk.
\<close>

fun stream_run ::
  "(string \<Rightarrow> bool) \<Rightarrow> nat option \<Rightarrow> stream_event list \<Rightarrow> string \<Rightarrow> state
   \<Rightarrow> thrown option \<times> string \<times> state" where
  "stream_run isSvg signal [] fullResponse st = (None, fullResponse, st)"
| "stream_run isSvg signal (Chunk content # evs) fullResponse st =
     (if signal_aborted signal then (Some abortError, fullResponse, st)
      else stream_run isSvg signal evs (fullResponse @ content) (onChunk isSvg content st))"
| "stream_run isSvg signal (StreamClick a # evs) fullResponse st =
     stream_run isSvg signal evs fullResponse (click a st)"

definition generate_failed :: "state \<Rightarrow> state" where
  "generate_failed st = st\<lparr>statusText := StatusError, isGenerating := False\<rparr>"

definition generateSVG ::
  "(string \<Rightarrow> bool) \<Rightarrow> request \<Rightarrow> nat option \<Rightarrow> nat \<Rightarrow> attempt_script \<Rightarrow> state
   \<Rightarrow> (thrown + string) \<times> state" where
  "generateSVG isSvg rq signal attempt sc st =
     (case initializeEngine (modelId rq) signal sc (st\<lparr>isGenerating := True\<rparr>) of
        (Inl e, st1) \<Rightarrow> (Inl e, generate_failed st1)
      | (Inr engine, st1) \<Rightarrow>
          if signal_aborted signal then (Inl abortError, generate_failed st1)
          else
            (let st2 = onGenerationStart attempt (clock sc) (st1\<lparr>statusText := StatusGenerating\<rparr>)
             in (case open_stream sc of
                   Some e \<Rightarrow> (Inl e, generate_failed st2)
                 | None \<Rightarrow>
                     (case stream_run isSvg signal (stream_events sc) [] st2 of
                        (Some e, fullResponse, st3) \<Rightarrow> (Inl e, generate_failed st3)
                      | (None, fullResponse, st3) \<Rightarrow>
                          (case stream_end sc of
                             Some e \<Rightarrow> (Inl e, generate_failed st3)
                           | None \<Rightarrow>
                               (Inr fullResponse,
                                (onGenerationEnd attempt st3)
                                  \<lparr>statusText := StatusWaiting, isGenerating := False\<rparr>))))))"

section \<open>The retry loop of handleGenerate\<close>

definition maxRetries :: nat where
  "maxRetries = 10"

text \<open>
  \<^verbatim>\<open>handleGenerate\<close> returns nothing; a \<open>terminal\<close> names the \<^verbatim>\<open>return\<close> it
  left by: success with the valid blocks it stored, one of the two exits on the stop
  flag, or an exit with an error toast and its cause.
\<close>

datatype cause = NoMatchFound | NoValidMatch | TransportFailure thrown | MaxRetriesReached

datatype terminal = Succeeded "string list" | Stopped | FatalFailed cause

datatype step = Continue state | Return terminal state

text \<open>The size check of one valid block: it only writes a warning to the log.\<close>

definition size_warning :: "(string \<Rightarrow> jsnum) \<Rightarrow> jsnum \<Rightarrow> string \<Rightarrow> state \<Rightarrow> state" where
  "size_warning pf sz svg st =
     (case viewBox_match svg of
        None \<Rightarrow> st
      | Some viewBox \<Rightarrow>
          (let viewBoxValues = split_ws viewBox;
               svgWidth = parse_entry pf (js_index viewBoxValues 2);
               svgHeight = parse_entry pf (js_index viewBoxValues 3)
           in if strict_neq svgWidth sz \<or> strict_neq svgHeight sz
              then addLog (LogSizeMismatch sz svgWidth svgHeight) st
              else st))"

text \<open>The loop over \<^verbatim>\<open>svgMatches\<close> that fills \<^verbatim>\<open>validSVGs\<close>.\<close>

fun validate_all ::
  "(string \<Rightarrow> bool) \<Rightarrow> (string \<Rightarrow> jsnum) \<Rightarrow> jsnum \<Rightarrow> string list \<Rightarrow> string list \<Rightarrow> state
   \<Rightarrow> string list \<times> state" where
  "validate_all isSvg pf sz [] validSVGs st = (validSVGs, st)"
| "validate_all isSvg pf sz (svg # rest) validSVGs st =
     (if \<not> isSvg svg then validate_all isSvg pf sz rest validSVGs (addLog LogInvalidFormat st)
      else validate_all isSvg pf sz rest (validSVGs @ [svg]) (size_warning pf sz svg st))"

definition no_candidates :: "nat \<Rightarrow> state \<Rightarrow> step" where
  "no_candidates attempt st =
     (let st' = addLog LogNoSvgTag st
      in if attempt < maxRetries then Continue ((addLog LogRetrying st')\<lparr>startTime := None\<rparr>)
         else Return (FatalFailed NoMatchFound) ((show_toast ToastNoSvg st')\<lparr>startTime := None\<rparr>))"

definition none_valid :: "nat \<Rightarrow> state \<Rightarrow> step" where
  "none_valid attempt st =
     (let st' = addLog LogNoValidSvg st
      in if attempt < maxRetries then Continue ((addLog LogRetrying st')\<lparr>startTime := None\<rparr>)
         else Return (FatalFailed NoValidMatch) ((show_toast ToastNoValid st')\<lparr>startTime := None\<rparr>))"

definition accept :: "request \<Rightarrow> nat \<Rightarrow> string list \<Rightarrow> state \<Rightarrow> state" where
  "accept rq attempt validSVGs st =
     show_toast (ToastGenerated (length validSVGs) (if attempt > 1 then Some attempt else None))
       ((addLog (LogValidationPassed (length validSVGs)) st)
          \<lparr>extractedSVGs := validSVGs,
           selectedSVGIndex := int (length validSVGs) - 1,
           cachedModels := insert (modelId rq) (cachedModels st),
           startTime := None,
           abortControllerRef := None\<rparr>)"

text \<open>The \<^verbatim>\<open>try\<close> block after \<^verbatim>\<open>generateSVG\<close> has returned the response.\<close>

definition process_response ::
  "(string \<Rightarrow> bool) \<Rightarrow> (string \<Rightarrow> jsnum) \<Rightarrow> request \<Rightarrow> nat \<Rightarrow> string \<Rightarrow> state \<Rightarrow> step" where
  "process_response isSvg pf rq attempt fullResponse st =
     (case js_match fullResponse of
        None \<Rightarrow> no_candidates attempt (addLog LogCompleted st)
      | Some svgMatches \<Rightarrow>
          if length svgMatches = 0 then no_candidates attempt (addLog LogCompleted st)
          else
            (case validate_all isSvg pf (size_px rq) svgMatches [] (addLog LogCompleted st) of
               (validSVGs, st') \<Rightarrow>
                 if length validSVGs = 0 then none_valid attempt st'
                 else Return (Succeeded validSVGs) (accept rq attempt validSVGs st')))"

text \<open>The \<^verbatim>\<open>catch\<close> block.\<close>

definition handle_error :: "nat \<Rightarrow> thrown \<Rightarrow> state \<Rightarrow> step" where
  "handle_error attempt e st =
     (let st1 = st\<lparr>startTime := None\<rparr>
      in if is_abort e then
           if shouldStopRef st1 then
             Return Stopped
               ((addLog LogStoppedByUser st1)\<lparr>abortControllerRef := None, shouldStopRef := False\<rparr>)
           else
             Continue
               ((addLog LogSkipping st1)
                  \<lparr>abortControllerRef := Some (controllers st1),
                   controllers := Suc (controllers st1)\<rparr>)
         else
           (let st2 = addLog (LogFailed attempt e) st1
            in if attempt \<ge> maxRetries then
                 Return (FatalFailed (TransportFailure e))
                   (show_toast (ToastThrown e) (st2\<lparr>startTime := None, abortControllerRef := None\<rparr>))
               else Continue (addLog LogRetrying st2)))"

text \<open>From \<^verbatim>\<open>attempt++\<close> to the call: \<open>attempt\<close> is the incremented ordinal.\<close>

definition begin_attempt :: "nat \<Rightarrow> state \<Rightarrow> state" where
  "begin_attempt attempt st =
     (let st' =
        (if attempt > 1 then
           (addLog (LogResetting (length (currentOutput st)))
              (addLog (LogRetryAttempt attempt maxRetries) st))
             \<lparr>currentOutput := [], aiRawOutput := []\<rparr>
         else st)
      in addLog (LogStartingAttempt attempt (abortControllerRef st' \<noteq> None)) st')"

definition attempt_body ::
  "(string \<Rightarrow> bool) \<Rightarrow> (string \<Rightarrow> jsnum) \<Rightarrow> request \<Rightarrow> attempt_script \<Rightarrow> nat \<Rightarrow> state \<Rightarrow> step" where
  "attempt_body isSvg pf rq sc attempt st =
     (let st1 = begin_attempt attempt st
      in (case generateSVG isSvg rq (abortControllerRef st1) attempt sc st1 of
            (Inr fullResponse, st2) \<Rightarrow> process_response isSvg pf rq attempt fullResponse st2
          | (Inl e, st2) \<Rightarrow> handle_error attempt e st2))"

definition stop_exit :: "state \<Rightarrow> state" where
  "stop_exit st = (addLog LogStoppedByUser st)\<lparr>abortControllerRef := None, shouldStopRef := False\<rparr>"

definition exhausted_exit :: "state \<Rightarrow> state" where
  "exhausted_exit st = (show_toast ToastMaxRetries (st\<lparr>startTime := None\<rparr>))\<lparr>abortControllerRef := None\<rparr>"

text \<open>
  The \<^verbatim>\<open>while\<close> loop. \<open>env k\<close> is what the world does during attempt \<open>k\<close>;
  \<open>attempt\<close> is the counter before the iteration. The result is the exit taken, the
  final value of the counter, which is the number of \<^verbatim>\<open>generateSVG\<close> calls made,
  and the final state.
\<close>

function generation_loop ::
  "(string \<Rightarrow> bool) \<Rightarrow> (string \<Rightarrow> jsnum) \<Rightarrow> request \<Rightarrow> (nat \<Rightarrow> attempt_script) \<Rightarrow> nat \<Rightarrow> state
   \<Rightarrow> terminal \<times> nat \<times> state" where
  "generation_loop isSvg pf rq env attempt st =
     (if attempt < maxRetries then
        if shouldStopRef st then (Stopped, attempt, stop_exit st)
        else
          (case attempt_body isSvg pf rq (env (Suc attempt)) (Suc attempt) st of
             Return t st' \<Rightarrow> (t, Suc attempt, st')
           | Continue st' \<Rightarrow> generation_loop isSvg pf rq env (Suc attempt) st')
      else (FatalFailed MaxRetriesReached, attempt, exhausted_exit st))"
  by pat_completeness auto
termination
  by (relation "measure (\<lambda>(isSvg, pf, rq, env, attempt, st). maxRetries - attempt)") auto

declare generation_loop.simps [simp del]

text \<open>
  \<^verbatim>\<open>handleGenerate\<close> from the reset of the stop flag on, for a request whose prompt
  and model passed the two guards at its head; the prompt history and the stored draft
  are not part of the state modelled.
\<close>

definition start_generation :: "request \<Rightarrow> state \<Rightarrow> state" where
  "start_generation rq st =
     addLog (LogCurrentColor (useCurrentColor rq))
       (addLog (LogSize (size_px rq))
          (addLog (LogModel (modelId rq))
             (addLog (LogPrompt (prompt rq))
                (addLog LogStarting
                   (st\<lparr>shouldStopRef := False,
                       abortControllerRef := Some (controllers st),
                       controllers := Suc (controllers st),
                       aiRawOutput := [],
                       extractedSVGs := [],
                       selectedSVGIndex := 0,
                       debugLogs := [],
                       elapsedTime := 0,
                       currentOutput := []\<rparr>)))))"

definition handleGenerate ::
  "(string \<Rightarrow> bool) \<Rightarrow> (string \<Rightarrow> jsnum) \<Rightarrow> request \<Rightarrow> (nat \<Rightarrow> attempt_script) \<Rightarrow> state
   \<Rightarrow> terminal \<times> nat \<times> state" where
  "handleGenerate isSvg pf rq env st = generation_loop isSvg pf rq env 0 (start_generation rq st)"

section \<open>Notions for stating the properties\<close>

text \<open>
  The words of the specification about buffers, stated without the matcher. An opening
  tag is an occurrence of \<^verbatim>\<open><svg\<close> and a closing tag one of \<^verbatim>\<open></svg>\<close>, in any
  case. \<open>has_span\<close>: some opening tag is followed, after its four characters, by a
  closing tag. \<open>minimal_block\<close>: the text starts with an opening tag, ends with a closing
  tag, and no closing tag starts earlier behind the opening tag. \<open>gap_ok\<close>: the text
  between blocks holds no opening tag. \<open>assemble g0 [(b1, g1), ..., (bn, gn)]\<close> is the
  buffer \<open>g0 b1 g1 ... bn gn\<close>.

  \<open>balanced_block\<close> is the wider notion of a block whose tags nest: the text starts with
  an opening tag, every closing tag closes an opening tag that is still open, and the
  closing tag of the first opening tag ends the text. \<open>depth_ok s d\<close> reads \<open>s\<close> with
  \<open>d\<close> opening tags still open.
\<close>

fun contains_ci :: "string \<Rightarrow> string \<Rightarrow> bool" where
  "contains_ci p [] = ci_prefix p []"
| "contains_ci p (c # cs) = (ci_prefix p (c # cs) \<or> contains_ci p cs)"

fun has_span :: "string \<Rightarrow> bool" where
  "has_span [] = False"
| "has_span (c # cs) =
     ((ci_prefix ''<svg'' (c # cs) \<and> contains_ci ''</svg>'' (drop 4 (c # cs))) \<or> has_span cs)"

fun no_close_in :: "string \<Rightarrow> nat \<Rightarrow> bool" where
  "no_close_in s 0 = True"
| "no_close_in s (Suc n) = (\<not> ci_prefix ''</svg>'' s \<and> no_close_in (tl s) n)"

definition minimal_block :: "string \<Rightarrow> bool" where
  "minimal_block b \<longleftrightarrow>
     10 \<le> length b \<and> ci_prefix ''<svg'' b \<and> ci_prefix ''</svg>'' (drop (length b - 6) b) \<and>
     no_close_in (drop 4 b) (length b - 10)"

fun depth_ok :: "string \<Rightarrow> nat \<Rightarrow> bool" where
  "depth_ok [] d = (d = 0)"
| "depth_ok (c # cs) d =
     (if ci_prefix ''<svg'' (c # cs) then depth_ok cs (Suc d)
      else if ci_prefix ''</svg>'' (c # cs) then
        0 < d \<and> (if d = 1 then length cs = 5 else depth_ok cs (d - 1))
      else 0 < d \<and> depth_ok cs d)"

definition balanced_block :: "string \<Rightarrow> bool" where
  "balanced_block b \<longleftrightarrow> depth_ok b 0"

definition gap_ok :: "string \<Rightarrow> bool" where
  "gap_ok g \<longleftrightarrow> \<not> contains_ci ''<svg'' g"

fun assemble :: "string \<Rightarrow> (string \<times> string) list \<Rightarrow> string" where
  "assemble g [] = g"
| "assemble g ((b, g') # bgs) = g @ b @ assemble g' bgs"

text \<open>
  Relations between the state before and after a part of a streaming call. \<open>kept\<close>:
  the fields that no such part writes. \<open>evolves\<close>: what may happen to the stop flag,
  the controller and the list of interrupts. \<open>quiet\<close>: nobody pressed stop.
  \<open>same_engine\<close>: the engine and its model are the same. \<open>engine_dropped\<close>: no
  engine and no model are held. \<open>engine_held\<close>: the condition under which
  \<^verbatim>\<open>initializeEngine\<close> reuses the engine.
\<close>

definition kept :: "state \<Rightarrow> state \<Rightarrow> bool" where
  "kept st st' \<longleftrightarrow>
     selectedSVGIndex st' = selectedSVGIndex st \<and> cachedModels st' = cachedModels st \<and>
     controllers st' = controllers st"

definition evolves :: "state \<Rightarrow> state \<Rightarrow> bool" where
  "evolves st st' \<longleftrightarrow>
     (shouldStopRef st \<longrightarrow> shouldStopRef st') \<and>
     (abortControllerRef st' = abortControllerRef st \<or> abortControllerRef st' = None) \<and>
     take (length (interrupted st)) (interrupted st') = interrupted st"

definition quiet :: "state \<Rightarrow> state \<Rightarrow> bool" where
  "quiet st st' \<longleftrightarrow>
     shouldStopRef st' = shouldStopRef st \<and> abortControllerRef st' = abortControllerRef st"

definition same_engine :: "state \<Rightarrow> state \<Rightarrow> bool" where
  "same_engine st st' \<longleftrightarrow>
     engineRef st' = engineRef st \<and> currentModelRef st' = currentModelRef st"

definition engine_dropped :: "state \<Rightarrow> bool" where
  "engine_dropped st \<longleftrightarrow> engineRef st = None \<and> currentModelRef st = None"

text \<open>The engines interrupted between two states, the later one extending the earlier.\<close>

definition interrupts_since :: "state \<Rightarrow> state \<Rightarrow> nat list" where
  "interrupts_since st st' = drop (length (interrupted st)) (interrupted st')"

definition engine_held :: "state \<Rightarrow> string \<Rightarrow> bool" where
  "engine_held st model \<longleftrightarrow> engineRef st \<noteq> None \<and> currentModelRef st = Some model"

text \<open>The state in which the \<^verbatim>\<open>generateSVG\<close> call of an attempt settles.\<close>

definition after_call ::
  "(string \<Rightarrow> bool) \<Rightarrow> request \<Rightarrow> attempt_script \<Rightarrow> nat \<Rightarrow> state \<Rightarrow> state" where
  "after_call isSvg rq sc attempt st =
     snd (generateSVG isSvg rq (abortControllerRef (begin_attempt attempt st)) attempt sc
            (begin_attempt attempt st))"

text \<open>
  The outcome of one attempt, read off its script. \<open>response_of\<close> is the text the
  chunks add up to. \<open>script_result reuse sc\<close> is what \<^verbatim>\<open>generateSVG\<close> throws or
  returns under the script, \<open>reuse\<close> telling whether an engine is reused. An attempt is
  recoverable when the user does not press stop during it and it ends in one of the three
  recoverable ways, \<open>attempt_cause\<close>: the response has no candidate, it has candidates
  but none is valid, or a value other than an abort error is thrown.

  \<open>model_changed evs\<close>: the user selects a model during the stream. \<open>engine_after reuse
  sc\<close> tells whether an engine for the model of the request is held when the call under
  script \<open>sc\<close> has settled: one was reused or created, and no model was selected
  while the text streamed. \<open>reuse_at env r k\<close> tells the same after the first \<open>k\<close>
  attempts, \<open>r\<close> telling it for the start.
\<close>

fun response_of :: "stream_event list \<Rightarrow> string" where
  "response_of [] = []"
| "response_of (Chunk content # evs) = content @ response_of evs"
| "response_of (StreamClick a # evs) = response_of evs"

fun selects :: "user_action \<Rightarrow> bool" where
  "selects (SelectModel v) = True"
| "selects PressStop = False"
| "selects PressRetry = False"

fun model_changed :: "stream_event list \<Rightarrow> bool" where
  "model_changed [] = False"
| "model_changed (Chunk content # evs) = model_changed evs"
| "model_changed (StreamClick a # evs) = (selects a \<or> model_changed evs)"

definition script_result :: "bool \<Rightarrow> attempt_script \<Rightarrow> thrown + string" where
  "script_result reuse sc =
     (case (if reuse then None else (case create_engine sc of Inl e \<Rightarrow> Some e | Inr _ \<Rightarrow> None)) of
        Some e \<Rightarrow> Inl e
      | None \<Rightarrow>
          (case open_stream sc of
             Some e \<Rightarrow> Inl e
           | None \<Rightarrow>
               (case stream_end sc of
                  Some e \<Rightarrow> Inl e
                | None \<Rightarrow> Inr (response_of (stream_events sc)))))"

definition no_stop_click :: "attempt_script \<Rightarrow> bool" where
  "no_stop_click sc \<longleftrightarrow>
     InitClick PressStop \<notin> set (init_events sc) \<and> StreamClick PressStop \<notin> set (stream_events sc)"

definition attempt_cause :: "(string \<Rightarrow> bool) \<Rightarrow> bool \<Rightarrow> attempt_script \<Rightarrow> cause option" where
  "attempt_cause isSvg reuse sc =
     (case script_result reuse sc of
        Inl e \<Rightarrow> if is_abort e then None else Some (TransportFailure e)
      | Inr fullResponse \<Rightarrow>
          if match_global fullResponse = [] then Some NoMatchFound
          else if filter isSvg (match_global fullResponse) = [] then Some NoValidMatch
          else None)"

definition recoverable :: "(string \<Rightarrow> bool) \<Rightarrow> bool \<Rightarrow> attempt_script \<Rightarrow> bool" where
  "recoverable isSvg reuse sc \<longleftrightarrow> no_stop_click sc \<and> attempt_cause isSvg reuse sc \<noteq> None"



definition engine_created :: "attempt_script \<Rightarrow> bool" where
  "engine_created sc = (case create_engine sc of Inl _ \<Rightarrow> False | Inr _ \<Rightarrow> True)"

definition engine_after :: "bool \<Rightarrow> attempt_script \<Rightarrow> bool" where
  "engine_after reuse sc \<longleftrightarrow>
     (reuse \<or> engine_created sc) \<and>
     (open_stream sc = None \<longrightarrow> \<not> model_changed (stream_events sc))"

fun reuse_at :: "(nat \<Rightarrow> attempt_script) \<Rightarrow> bool \<Rightarrow> nat \<Rightarrow> bool" where
  "reuse_at env r 0 = r"
| "reuse_at env r (Suc k) = engine_after (reuse_at env r k) (env (Suc k))"



text \<open>The selected index a call must leave, given the state it started in and its exit.\<close>

definition selection_after :: "state \<Rightarrow> terminal \<Rightarrow> int" where
  "selection_after st t =
     (case t of
        Succeeded validSVGs \<Rightarrow> int (length validSVGs) - 1
      | Stopped \<Rightarrow> selectedSVGIndex st
      | FatalFailed c \<Rightarrow> selectedSVGIndex st)"

section \<open>Example inputs\<close>

text \<open>
  Concrete values for running the model: a component at rest, the request and the
  block of the scenarios in the specification, a stand-in for \<^verbatim>\<open>Number.parseFloat\<close> on
  the numerals the examples use, and a storage whose adapter fails.
\<close>

definition idle_state :: state where
  "idle_state =
     \<lparr>engineRef = None, currentModelRef = None, isInitializing = False, isGenerating = False,
      progress = 0, statusText = StatusWaiting, interrupted = [], selectedModel = ''m1'',
      cachedModels = {}, aiRawOutput = [], extractedSVGs = [], selectedSVGIndex = 0,
      debugLogs = [], elapsedTime = 0, startTime = None, abortControllerRef = None,
      controllers = 0, shouldStopRef = False, toasts = [], currentOutput = []\<rparr>"

definition loaded_state :: state where
  "loaded_state = idle_state\<lparr>engineRef := Some 7, currentModelRef := Some ''m1''\<rparr>"

definition circle_request :: request where
  "circle_request =
     \<lparr>modelId = ''m1'', prompt = ''a circle'', size_px = Finite 64, maxTokens = Finite 10000,
      temperature = Finite (1 / 5), useCurrentColor = True\<rparr>"

definition circle_svg :: string where
  \<open>circle_svg = ''<svg viewBox="0 0 64 64"><circle r="10"/></svg>''\<close>

definition small_svg :: string where
  \<open>small_svg = ''<svg viewBox="0 0 32 32"></svg>''\<close>

definition parse_demo :: "string \<Rightarrow> jsnum" where
  "parse_demo s =
     (if s = ''0'' then Finite 0 else if s = ''32'' then Finite 32
      else if s = ''64'' then Finite 64 else NaN)"

definition accepts_examples :: "string \<Rightarrow> bool" where
  "accepts_examples s \<longleftrightarrow> s = circle_svg \<or> s = small_svg"




definition circle_script :: attempt_script where
  "circle_script =
     \<lparr>init_events = [InitProgress 50 ''loading''], create_engine = Inr 7, clock = 1000,
      open_stream = None, stream_events = [Chunk circle_svg], stream_end = None\<rparr>"

definition circle_env :: "nat \<Rightarrow> attempt_script" where
  "circle_env k = circle_script"

definition small_script :: attempt_script where
  "small_script =
     \<lparr>init_events = [], create_engine = Inr 7, clock = 1000,
      open_stream = None, stream_events = [Chunk small_svg], stream_end = None\<rparr>"


definition no_graphics_script :: attempt_script where
  "no_graphics_script =
     \<lparr>init_events = [], create_engine = Inr 7, clock = 1000,
      open_stream = None, stream_events = [Chunk ''no graphics here''], stream_end = None\<rparr>"

definition rejected_script :: attempt_script where
  "rejected_script =
     \<lparr>init_events = [], create_engine = Inr 7, clock = 1000,
      open_stream = None, stream_events = [Chunk ''<svg>'', Chunk ''</svg>''], stream_end = None\<rparr>"

definition broken_script :: attempt_script where
  "broken_script =
     \<lparr>init_events = [], create_engine = Inr 7, clock = 1000,
      open_stream = Some (ErrorObject ''Error'' ''device lost''), stream_events = [],
      stream_end = None\<rparr>"

text \<open>An environment that goes through the three recoverable causes in turn.\<close>

definition mixed_env :: "nat \<Rightarrow> attempt_script" where
  "mixed_env k =
     (if k mod 3 = 0 then broken_script
      else if k mod 3 = 1 then no_graphics_script
      else rejected_script)"





definition skip_script :: attempt_script where
  "skip_script =
     \<lparr>init_events = [], create_engine = Inr 7, clock = 1000, open_stream = None,
      stream_events = [Chunk ''<svg'', StreamClick PressRetry], stream_end = Some abortError\<rparr>"

definition skip_env :: "nat \<Rightarrow> attempt_script" where
  "skip_env k = skip_script"

definition skip_late_script :: attempt_script where
  "skip_late_script =
     \<lparr>init_events = [], create_engine = Inr 7, clock = 1000, open_stream = None,
      stream_events = [Chunk circle_svg, StreamClick PressRetry], stream_end = None\<rparr>"

definition skip_late_env :: "nat \<Rightarrow> attempt_script" where
  "skip_late_env k = skip_late_script"







definition switch_skip_script :: attempt_script where
  "switch_skip_script =
     \<lparr>init_events = [], create_engine = Inr 7, clock = 1000, open_stream = None,
      stream_events = [Chunk ''<svg'', StreamClick (SelectModel ''m2''), StreamClick PressRetry],
      stream_end = Some abortError\<rparr>"

definition switch_skip_env :: "nat \<Rightarrow> attempt_script" where
  "switch_skip_env k = switch_skip_script"

text \<open>
  A script whose creation gives another engine, and one whose creation fails.
\<close>

definition second_script :: attempt_script where
  "second_script = circle_script\<lparr>create_engine := Inr 8\<rparr>"

definition no_gpu_error :: thrown where
  "no_gpu_error = ErrorObject ''Error'' ''WebGPU is not available''"

definition no_gpu_script :: attempt_script where
  "no_gpu_script = circle_script\<lparr>create_engine := Inl no_gpu_error\<rparr>"

text \<open>One block whose tags nest: an outer element that holds two inner ones.\<close>

definition nested_svg :: string where
  "nested_svg = ''<svg><svg></svg><svg></svg></svg>''"
section \<open>Properties of the matcher\<close>

lemma contains_ci_iff:
  "contains_ci p s \<longleftrightarrow> (\<exists>i\<le>length s. ci_prefix p (drop i s))"
proof (induction s)
  case Nil
  then show ?case by simp
next
  case (Cons c cs)
  show ?case
  proof
    assume "contains_ci p (c # cs)"
    then consider "ci_prefix p (c # cs)" | "contains_ci p cs" by auto
    then show "\<exists>i\<le>length (c # cs). ci_prefix p (drop i (c # cs))"
    proof cases
      case 1
      then have "ci_prefix p (drop 0 (c # cs))" by simp
      then show ?thesis by blast
    next
      case 2
      with Cons obtain i where "i \<le> length cs" "ci_prefix p (drop i cs)" by blast
      then have "Suc i \<le> length (c # cs) \<and> ci_prefix p (drop (Suc i) (c # cs))" by simp
      then show ?thesis by blast
    qed
  next
    assume "\<exists>i\<le>length (c # cs). ci_prefix p (drop i (c # cs))"
    then obtain i where i: "i \<le> length (c # cs)" "ci_prefix p (drop i (c # cs))" by blast
    show "contains_ci p (c # cs)"
    proof (cases i)
      case 0
      with i show ?thesis by simp
    next
      case (Suc k)
      with i have "k \<le> length cs \<and> ci_prefix p (drop k cs)" by simp
      with Cons show ?thesis by auto
    qed
  qed
qed


lemma match_global_unfold:
  "s \<noteq> [] \<Longrightarrow> match_global s =
     (if ci_prefix ''<svg'' s then
        (case lazy_until_close (drop 4 s) of
           Some (m, r) \<Rightarrow> (take 4 s @ m) # match_global r
         | None \<Rightarrow> match_global (tl s))
      else match_global (tl s))"
  by (cases s) (auto split: option.splits)

lemma has_span_unfold:
  "s \<noteq> [] \<Longrightarrow> has_span s =
     ((ci_prefix ''<svg'' s \<and> contains_ci ''</svg>'' (drop 4 s)) \<or> has_span (tl s))"
  by (cases s) simp_all

lemma ci_prefix_length: "ci_prefix p s \<Longrightarrow> length p \<le> length s"
  by (induction p s rule: ci_prefix.induct) auto

lemma has_span_iff:
  "has_span s \<longleftrightarrow>
     (\<exists>i j. i + 4 \<le> j \<and> j \<le> length s \<and> ci_prefix ''<svg'' (drop i s) \<and> ci_prefix ''</svg>'' (drop j s))"
proof (induction s)
  case Nil
  then show ?case by simp
next
  case (Cons c cs)
  define s where "s = c # cs"
  have ne: "s \<noteq> []" and tl: "tl s = cs" and len: "length s = Suc (length cs)"
    by (simp_all add: s_def)
  have dropS: "\<And>k. drop (Suc k) s = drop k cs" by (simp add: s_def)
  have "has_span s \<longleftrightarrow>
     (\<exists>i j. i + 4 \<le> j \<and> j \<le> length s \<and> ci_prefix ''<svg'' (drop i s) \<and> ci_prefix ''</svg>'' (drop j s))"
  proof
    assume "has_span s"
    then consider "ci_prefix ''<svg'' s \<and> contains_ci ''</svg>'' (drop 4 s)" | "has_span cs"
      using has_span_unfold [OF ne] tl by auto
    then show "\<exists>i j. i + 4 \<le> j \<and> j \<le> length s \<and> ci_prefix ''<svg'' (drop i s) \<and> ci_prefix ''</svg>'' (drop j s)"
    proof cases
      case 1
      then obtain k where k: "k \<le> length (drop 4 s)" "ci_prefix ''</svg>'' (drop k (drop 4 s))"
        unfolding contains_ci_iff by blast
      from 1 have "4 \<le> length s" using ci_prefix_length [of "''<svg''" s] by simp
      with k have "0 + 4 \<le> k + 4 \<and> k + 4 \<le> length s \<and> ci_prefix ''</svg>'' (drop (k + 4) s)"
        by (simp add: add.commute del: ci_prefix.simps)
      moreover from 1 have "ci_prefix ''<svg'' (drop 0 s)" by (simp del: ci_prefix.simps)
      ultimately show ?thesis by blast
    next
      case 2
      with Cons obtain i j where "i + 4 \<le> j" "j \<le> length cs" "ci_prefix ''<svg'' (drop i cs)"
        "ci_prefix ''</svg>'' (drop j cs)" by blast
      then have "Suc i + 4 \<le> Suc j \<and> Suc j \<le> length s \<and> ci_prefix ''<svg'' (drop (Suc i) s)
          \<and> ci_prefix ''</svg>'' (drop (Suc j) s)" by (simp add: dropS len del: ci_prefix.simps)
      then show ?thesis by blast
    qed
  next
    assume "\<exists>i j. i + 4 \<le> j \<and> j \<le> length s \<and> ci_prefix ''<svg'' (drop i s) \<and> ci_prefix ''</svg>'' (drop j s)"
    then obtain i j where ij: "i + 4 \<le> j" "j \<le> length s" "ci_prefix ''<svg'' (drop i s)"
      "ci_prefix ''</svg>'' (drop j s)" by blast
    show "has_span s"
    proof (cases i)
      case 0
      have "drop (j - 4) (drop 4 s) = drop j s" using ij by simp
      then have "j - 4 \<le> length (drop 4 s) \<and> ci_prefix ''</svg>'' (drop (j - 4) (drop 4 s))"
        using ij by (simp del: ci_prefix.simps)
      then have "contains_ci ''</svg>'' (drop 4 s)" unfolding contains_ci_iff by blast
      moreover from ij 0 have "ci_prefix ''<svg'' s" by (simp del: ci_prefix.simps)
      ultimately show ?thesis using has_span_unfold [OF ne] by blast
    next
      case (Suc i')
      with ij obtain j' where j': "j = Suc j'" by (cases j) auto
      with ij Suc have "i' + 4 \<le> j' \<and> j' \<le> length cs \<and> ci_prefix ''<svg'' (drop i' cs)
         \<and> ci_prefix ''</svg>'' (drop j' cs)" by (simp add: dropS len del: ci_prefix.simps)
      with Cons have "has_span cs" by blast
      then show ?thesis using has_span_unfold [OF ne] tl by simp
    qed
  qed
  then show ?case by (simp only: s_def)
qed

lemma lazy_until_close_None:
  "lazy_until_close s = None \<longleftrightarrow> \<not> contains_ci ''</svg>'' s"
  by (induction s) (auto split: option.splits simp del: ci_prefix.simps(3))

lemma match_global_Nil_iff: "match_global s = [] \<longleftrightarrow> \<not> has_span s"
proof (induction s rule: match_global.induct)
  case 1
  then show ?case by simp
next
  case (2 c cs)
  define s where "s = c # cs"
  have ne: "s \<noteq> []" and tl: "tl s = cs" by (simp_all add: s_def)
  note IH = "2" [folded s_def]
  have "match_global s = [] \<longleftrightarrow> \<not> has_span s"
  proof (cases "ci_prefix ''<svg'' s")
    case False
    with IH show ?thesis
      using match_global_unfold [OF ne] has_span_unfold [OF ne] tl by simp
  next
    case True
    show ?thesis
    proof (cases "lazy_until_close (drop 4 s)")
      case None
      then have "\<not> contains_ci ''</svg>'' (drop 4 s)"
        by (simp add: lazy_until_close_None)
      with None True IH show ?thesis
        using match_global_unfold [OF ne] has_span_unfold [OF ne] tl
        by simp
    next
      case (Some a)
      then have "contains_ci ''</svg>'' (drop 4 s)"
        using lazy_until_close_None [of "drop 4 s"] by simp
      with True Some show ?thesis
        using match_global_unfold [OF ne] has_span_unfold [OF ne]
        by (cases a) simp
    qed
  qed
  then show ?case by (simp only: s_def)
qed


lemma lazy_until_close_unfold:
  "s \<noteq> [] \<Longrightarrow> lazy_until_close s =
     (if ci_prefix ''</svg>'' s then Some (take 6 s, drop 6 s)
      else (case lazy_until_close (tl s) of None \<Rightarrow> None | Some (m, r) \<Rightarrow> Some (hd s # m, r)))"
  by (cases s) (auto split: option.splits)

lemma ci_prefix_append: "length p \<le> length s \<Longrightarrow> ci_prefix p (s @ r) = ci_prefix p s"
  by (induction p s rule: ci_prefix.induct) auto

lemma block_close:
  "no_close_in s n \<Longrightarrow> n + 6 = length s \<Longrightarrow> ci_prefix ''</svg>'' (drop n s) \<Longrightarrow>
   lazy_until_close (s @ r) = Some (s, r)"
proof (induction n arbitrary: s)
  case 0
  then have "ci_prefix ''</svg>'' (s @ r)" and "s @ r \<noteq> []"
    using ci_prefix_append [of "''</svg>''" s r] by auto
  with 0 show ?case
    using lazy_until_close_unfold [of "s @ r"] by simp
next
  case (Suc n)
  then obtain c s' where s: "s = c # s'" by (cases s) auto
  from Suc.prems have "\<not> ci_prefix ''</svg>'' s" and nc: "no_close_in s' n"
    by (simp_all add: s del: ci_prefix.simps)
  moreover from Suc.prems have "length ''</svg>'' \<le> length s" by simp
  ultimately have no: "\<not> ci_prefix ''</svg>'' (s @ r)"
    using ci_prefix_append [of "''</svg>''" s r] by blast
  from Suc.prems have "n + 6 = length s'" and "ci_prefix ''</svg>'' (drop n s')"
    by (simp_all add: s del: ci_prefix.simps)
  with nc have "lazy_until_close (s' @ r) = Some (s', r)" by (rule Suc.IH)
  with no show ?case
    using lazy_until_close_unfold [of "s @ r"] by (simp add: s del: ci_prefix.simps)
qed

lemma match_global_block:
  assumes "minimal_block b"
  shows "match_global (b @ r) = b # match_global r"
proof -
  from assms have len: "10 \<le> length b" and op: "ci_prefix ''<svg'' b"
    and cl: "ci_prefix ''</svg>'' (drop (length b - 6) b)"
    and nc: "no_close_in (drop 4 b) (length b - 10)"
    by (simp_all add: minimal_block_def del: ci_prefix.simps)
  from len have ne: "b @ r \<noteq> []" by auto
  from op len have op': "ci_prefix ''<svg'' (b @ r)"
    using ci_prefix_append [of "''<svg''" b r] by simp
  have "drop (length b - 10) (drop 4 b) = drop (length b - 6) b"
    using len by simp
  with cl have cl': "ci_prefix ''</svg>'' (drop (length b - 10) (drop 4 b))" by simp
  have len': "length b - 10 + 6 = length (drop 4 b)" using len by simp
  have "lazy_until_close (drop 4 b @ r) = Some (drop 4 b, r)"
    by (rule block_close [OF nc len' cl'])
  moreover have "drop 4 (b @ r) = drop 4 b @ r" and "take 4 (b @ r) = take 4 b"
    using len by simp_all
  ultimately show ?thesis
    using match_global_unfold [OF ne] op' len by simp
qed

lemma canon_lt [simp]: "canon CHR ''<'' = CHR ''<''"
  and canon_s [simp]: "canon CHR ''s'' = CHR ''s''"
  and canon_v [simp]: "canon CHR ''v'' = CHR ''v''"
  and canon_g [simp]: "canon CHR ''g'' = CHR ''g''"
  by (simp_all add: canon_def)

lemma no_straddle:
  assumes "g \<noteq> []" "\<not> ci_prefix ''<svg'' g" "r = [] \<or> canon (hd r) = CHR ''<''"
  shows "\<not> ci_prefix ''<svg'' (g @ r)"
proof (cases "4 \<le> length g")
  case True
  with assms(2) show ?thesis using ci_prefix_append [of "''<svg''" g r] by simp
next
  case False
  then consider a where "g = [a]" | a b where "g = [a, b]" | a b c where "g = [a, b, c]"
    using assms(1)
    by (cases g; cases "tl g"; cases "tl (tl g)"; cases "tl (tl (tl g))") auto
  then show ?thesis
    using assms(3) by cases (cases r; auto)+
qed

lemma match_global_gap:
  "\<not> contains_ci ''<svg'' g \<Longrightarrow> r = [] \<or> canon (hd r) = CHR ''<'' \<Longrightarrow>
   match_global (g @ r) = match_global r"
proof (induction g)
  case Nil
  then show ?case by simp
next
  case (Cons c g)
  define s where "s = c # g"
  from Cons.prems have "\<not> ci_prefix ''<svg'' s" and rest: "\<not> contains_ci ''<svg'' g"
    by (simp_all add: s_def del: ci_prefix.simps)
  then have "\<not> ci_prefix ''<svg'' (s @ r)"
    using no_straddle [of s r] Cons.prems(2) by (simp add: s_def del: ci_prefix.simps)
  moreover have "s @ r \<noteq> []" and "tl (s @ r) = g @ r" by (simp_all add: s_def)
  ultimately have "match_global (s @ r) = match_global (g @ r)"
    using match_global_unfold [of "s @ r"] by simp
  with Cons.IH [OF rest Cons.prems(2)] show ?case by (simp add: s_def)
qed

lemma block_starts:
  "minimal_block b \<Longrightarrow> canon (hd (b @ r)) = CHR ''<''"
  by (cases b) (auto simp: minimal_block_def)

lemma match_global_assemble:
  "gap_ok g0 \<Longrightarrow> (\<forall>(b, g) \<in> set bgs. minimal_block b \<and> gap_ok g) \<Longrightarrow>
   match_global (assemble g0 bgs) = map fst bgs"
proof (induction bgs arbitrary: g0)
  case Nil
  then show ?case
    using match_global_gap [of g0 "[]"] by (simp add: gap_ok_def)
next
  case (Cons bg bgs)
  obtain b g where bg: "bg = (b, g)" by (cases bg)
  from Cons.prems bg have b: "minimal_block b" and g: "gap_ok g"
    and rest: "\<forall>(b, g) \<in> set bgs. minimal_block b \<and> gap_ok g" by auto
  have "match_global (g0 @ (b @ assemble g bgs)) = match_global (b @ assemble g bgs)"
    using Cons.prems(1) block_starts [OF b] by (intro match_global_gap) (simp_all add: gap_ok_def)
  also have "\<dots> = b # match_global (assemble g bgs)" by (rule match_global_block [OF b])
  also have "match_global (assemble g bgs) = map fst bgs" by (rule Cons.IH [OF g rest])
  finally show ?case by (simp add: bg)
qed

section \<open>Properties of the hook\<close>

lemma init_run_ok: "fst (init_run signal evs st) = None"
  by (induction evs arbitrary: st) (auto simp: init_step_def signal_aborted_def split: init_event.splits)



















section \<open>What a streaming call leaves unchanged\<close>

lemmas step_defs = addLog_def show_toast_def interruptGenerate_def handleStop_def handleRetry_def
  handleModelChange_def resetEngine_def click_def onChunk_def onGenerationStart_def onGenerationEnd_def generate_failed_def
  init_failed_def init_step_def signal_aborted_def

lemma kept_refl [simp]: "kept st st"
  by (simp add: kept_def)

lemma kept_trans: "kept a b \<Longrightarrow> kept b c \<Longrightarrow> kept a c"
  by (simp add: kept_def)

lemma kept_click: "kept st (click a st)"
  by (simp add: kept_def step_defs split: user_action.splits option.splits)

lemma kept_onChunk: "kept st (onChunk isSvg chunk st)"
  by (simp add: kept_def step_defs Let_def split: option.splits)

lemma kept_stream_run: "kept st (snd (snd (stream_run isSvg signal evs full st)))"
proof (induction isSvg signal evs full st rule: stream_run.induct)
  case (1 isSvg signal fullResponse st)
  then show ?case by simp
next
  case (2 isSvg signal content evs fullResponse st)
  then show ?case using kept_onChunk kept_trans by (fastforce simp: signal_aborted_def)
next
  case (3 isSvg signal a evs fullResponse st)
  then show ?case using kept_click kept_trans by fastforce
qed

lemma kept_init_run: "kept st (snd (init_run signal evs st))"
proof (induction evs arbitrary: st)
  case Nil
  then show ?case by simp
next
  case (Cons ev evs)
  have "kept st st'" if "init_step signal ev st = Inr st'" for st'
    using that kept_click [of st]
    by (auto simp: init_step_def signal_aborted_def addLog_def kept_def split: init_event.splits)
  with Cons show ?case
    by (auto split: sum.splits intro: kept_trans)
qed

lemma kept_init_failed: "kept st (init_failed e st)"
  by (simp add: kept_def init_failed_def)

lemma kept_initialize_fresh: "kept st (snd (initialize_fresh model signal sc st))"
proof -
  let ?st0 = "st\<lparr>isInitializing := True, statusText := StatusInitializing\<rparr>"
  obtain r st' where i: "init_run signal (init_events sc) ?st0 = (r, st')"
    by (cases "init_run signal (init_events sc) ?st0")
  have "kept ?st0 st'" using kept_init_run [of ?st0 signal "init_events sc"] i by simp
  then have k: "kept st st'" by (simp add: kept_def)
  have kf: "kept st (init_failed e st')" for e
    using k kept_init_failed [of st' e] by (rule kept_trans)
  show ?thesis
  proof (cases r)
    case (Some e)
    with i kf show ?thesis by (simp add: initialize_fresh_def signal_aborted_def)
  next
    case None
    show ?thesis
    proof (cases "create_engine sc")
      case (Inl e)
      with None i kf show ?thesis by (simp add: initialize_fresh_def signal_aborted_def)
    next
      case (Inr engine)
      with None i k show ?thesis
        by (simp add: initialize_fresh_def signal_aborted_def kept_def)
    qed
  qed
qed

lemma kept_initializeEngine: "kept st (snd (initializeEngine model signal sc st))"
  using kept_initialize_fresh [of st model signal sc]
  by (simp add: initializeEngine_def split: option.splits)

lemma kept_generateSVG: "kept st (snd (generateSVG isSvg rq signal attempt sc st))"
proof -
  obtain r st1 where i: "initializeEngine (modelId rq) signal sc (st\<lparr>isGenerating := True\<rparr>) = (r, st1)"
    by (cases "initializeEngine (modelId rq) signal sc (st\<lparr>isGenerating := True\<rparr>)")
  have k1: "kept st st1"
    using kept_initializeEngine [of "st\<lparr>isGenerating := True\<rparr>" "modelId rq" signal sc] i
    by (simp add: kept_def)
  let ?st2 = "onGenerationStart attempt (clock sc) (st1\<lparr>statusText := StatusGenerating\<rparr>)"
  have k2: "kept st ?st2" using k1 by (simp add: kept_def onGenerationStart_def addLog_def)
  obtain e full st3 where s: "stream_run isSvg signal (stream_events sc) [] ?st2 = (e, full, st3)"
    by (cases "stream_run isSvg signal (stream_events sc) [] ?st2")
  have k3: "kept st st3"
    using kept_stream_run [of ?st2 isSvg signal "stream_events sc" "[]"] s k2
    by (auto intro: kept_trans)
  have f: "kept st (generate_failed x)" if "kept st x" for x
    using that by (simp add: kept_def generate_failed_def)
  have g: "kept st ((onGenerationEnd attempt st3)\<lparr>statusText := StatusWaiting, isGenerating := False\<rparr>)"
    using k3 by (simp add: kept_def onGenerationEnd_def addLog_def)
  show ?thesis
  proof (cases r)
    case (Inl err)
    with i f [OF k1] show ?thesis by (simp add: generateSVG_def)
  next
    case (Inr engine)
    show ?thesis
    proof (cases "open_stream sc")
      case (Some err)
      with Inr i f [OF k2] show ?thesis
        by (simp add: generateSVG_def signal_aborted_def Let_def)
    next
      case None
      show ?thesis
      proof (cases e)
        case (Some err)
        with None Inr i s f [OF k3] show ?thesis
          by (simp add: generateSVG_def signal_aborted_def Let_def)
      next
        case noerr: None
        show ?thesis
        proof (cases "stream_end sc")
          case (Some err)
          with noerr None Inr i s f [OF k3] show ?thesis
            by (simp add: generateSVG_def signal_aborted_def Let_def)
        next
          case nothrow: None
          with noerr None Inr i s g show ?thesis
            by (simp add: generateSVG_def signal_aborted_def Let_def)
        qed
      qed
    qed
  qed
qed

section \<open>The shape of a streaming call\<close>

lemma stream_run_result:
  "fst (stream_run isSvg signal evs full st) = None \<and>
   fst (snd (stream_run isSvg signal evs full st)) = full @ response_of evs"
  by (induction isSvg signal evs full st rule: stream_run.induct) (simp_all add: signal_aborted_def)

lemma initialize_fresh_cases:
  obtains (created) engine st' where
      "init_run signal (init_events sc) (st\<lparr>isInitializing := True, statusText := StatusInitializing\<rparr>) = (None, st')"
      "create_engine sc = Inr engine"
      "initialize_fresh model signal sc st =
         (Inr engine, st'\<lparr>engineRef := Some engine, currentModelRef := Some model,
            statusText := StatusReady, progress := 100, isInitializing := False\<rparr>)"
  | (failed) e st' where
      "init_run signal (init_events sc) (st\<lparr>isInitializing := True, statusText := StatusInitializing\<rparr>) = (None, st')"
      "create_engine sc = Inl e"
      "initialize_fresh model signal sc st = (Inl e, init_failed e st')"
proof -
  let ?st0 = "st\<lparr>isInitializing := True, statusText := StatusInitializing\<rparr>"
  obtain r st' where i: "init_run signal (init_events sc) ?st0 = (r, st')"
    by (cases "init_run signal (init_events sc) ?st0")
  with init_run_ok [of signal "init_events sc" ?st0] have r: "r = None" by simp
  show thesis
  proof (cases "create_engine sc")
    case (Inl e)
    with i r show thesis by (intro failed [of st' e]) (simp_all add: initialize_fresh_def signal_aborted_def)
  next
    case (Inr engine)
    with i r show thesis by (intro created [of st' engine]) (simp_all add: initialize_fresh_def signal_aborted_def)
  qed
qed

lemma initializeEngine_cases:
  obtains (reused) engine where
      "engine_held st model" "engineRef st = Some engine"
      "initializeEngine model signal sc st = (Inr engine, st)"
  | (fresh) "\<not> engine_held st model"
      "initializeEngine model signal sc st = initialize_fresh model signal sc st"
  by (cases "engineRef st"; cases "currentModelRef st = Some model")
     (auto simp: initializeEngine_def engine_held_def)

lemma generateSVG_cases:
  obtains (init_failed) e st1 where
      "initializeEngine (modelId rq) signal sc (st\<lparr>isGenerating := True\<rparr>) = (Inl e, st1)"
      "generateSVG isSvg rq signal attempt sc st = (Inl e, generate_failed st1)"
  | (open_failed) engine st1 e where
      "initializeEngine (modelId rq) signal sc (st\<lparr>isGenerating := True\<rparr>) = (Inr engine, st1)"
      "open_stream sc = Some e"
      "generateSVG isSvg rq signal attempt sc st =
         (Inl e, generate_failed (onGenerationStart attempt (clock sc) (st1\<lparr>statusText := StatusGenerating\<rparr>)))"
  | (stream_failed) engine st1 st3 e where
      "initializeEngine (modelId rq) signal sc (st\<lparr>isGenerating := True\<rparr>) = (Inr engine, st1)"
      "open_stream sc = None"
      "stream_run isSvg signal (stream_events sc) []
         (onGenerationStart attempt (clock sc) (st1\<lparr>statusText := StatusGenerating\<rparr>))
       = (None, response_of (stream_events sc), st3)"
      "stream_end sc = Some e"
      "generateSVG isSvg rq signal attempt sc st = (Inl e, generate_failed st3)"
  | (returned) engine st1 st3 where
      "initializeEngine (modelId rq) signal sc (st\<lparr>isGenerating := True\<rparr>) = (Inr engine, st1)"
      "open_stream sc = None"
      "stream_run isSvg signal (stream_events sc) []
         (onGenerationStart attempt (clock sc) (st1\<lparr>statusText := StatusGenerating\<rparr>))
       = (None, response_of (stream_events sc), st3)"
      "stream_end sc = None"
      "generateSVG isSvg rq signal attempt sc st =
         (Inr (response_of (stream_events sc)),
          (onGenerationEnd attempt st3)\<lparr>statusText := StatusWaiting, isGenerating := False\<rparr>)"
proof -
  obtain r st1 where i: "initializeEngine (modelId rq) signal sc (st\<lparr>isGenerating := True\<rparr>) = (r, st1)"
    by (cases "initializeEngine (modelId rq) signal sc (st\<lparr>isGenerating := True\<rparr>)")
  let ?st2 = "onGenerationStart attempt (clock sc) (st1\<lparr>statusText := StatusGenerating\<rparr>)"
  obtain x full st3 where s0: "stream_run isSvg signal (stream_events sc) [] ?st2 = (x, full, st3)"
    by (cases "stream_run isSvg signal (stream_events sc) [] ?st2")
  with stream_run_result [of isSvg signal "stream_events sc" "[]" ?st2]
  have s: "stream_run isSvg signal (stream_events sc) [] ?st2 = (None, response_of (stream_events sc), st3)"
    by simp
  show thesis
  proof (cases r)
    case (Inl e)
    with i show thesis by (intro init_failed [of e st1]) (simp_all add: generateSVG_def)
  next
    case (Inr engine)
    show thesis
    proof (cases "open_stream sc")
      case (Some e)
      with Inr i show thesis
        by (intro open_failed [of engine st1 e]) (simp_all add: generateSVG_def signal_aborted_def Let_def)
    next
      case None
      show thesis
      proof (cases "stream_end sc")
        case (Some e)
        with None Inr i s show thesis
          by (intro stream_failed [of engine st1 st3 e])
             (simp_all add: generateSVG_def signal_aborted_def Let_def)
      next
        case nothrow: None
        with None Inr i s show thesis
          by (intro returned [of engine st1 st3])
             (simp_all add: generateSVG_def signal_aborted_def Let_def)
      qed
    qed
  qed
qed

lemma initializeEngine_result:
  "(case fst (initializeEngine model signal sc st) of Inl e \<Rightarrow> Some e | Inr _ \<Rightarrow> None) =
   (if engine_held st model then None
    else (case create_engine sc of Inl e \<Rightarrow> Some e | Inr _ \<Rightarrow> None))"
proof (cases rule: initializeEngine_cases [of st model signal sc])
  case (reused engine)
  then show ?thesis by simp
next
  case fresh
  then show ?thesis
    by (cases rule: initialize_fresh_cases [of signal sc st model]) simp_all
qed

lemma generateSVG_result:
  "fst (generateSVG isSvg rq signal attempt sc st) = script_result (engine_held st (modelId rq)) sc"
proof -
  have held: "engine_held (st\<lparr>isGenerating := True\<rparr>) (modelId rq) = engine_held st (modelId rq)"
    by (simp add: engine_held_def)
  note r = initializeEngine_result [of "modelId rq" signal sc "st\<lparr>isGenerating := True\<rparr>", unfolded held]
  show ?thesis
  proof (cases rule: generateSVG_cases [of rq signal sc st isSvg attempt])
    case (init_failed e st1)
    with r show ?thesis by (auto simp: script_result_def split: if_splits sum.splits)
  next
    case (open_failed engine st1 e)
    with r show ?thesis by (auto simp: script_result_def split: if_splits sum.splits)
  next
    case (stream_failed engine st1 st3 e)
    with r show ?thesis by (auto simp: script_result_def split: if_splits sum.splits)
  next
    case (returned engine st1 st3)
    with r show ?thesis by (auto simp: script_result_def split: if_splits sum.splits)
  qed
qed

section \<open>Stop flag, controller and interrupts during a streaming call\<close>

lemma evolves_refl [simp]: "evolves st st"
  by (simp add: evolves_def)

lemma evolves_trans: "evolves a b \<Longrightarrow> evolves b c \<Longrightarrow> evolves a c"
proof -
  assume ab: "evolves a b" and bc: "evolves b c"
  have "take (length (interrupted a)) (interrupted c) = interrupted a"
  proof -
    from ab have 1: "take (length (interrupted a)) (interrupted b) = interrupted a"
      by (simp add: evolves_def)
    from bc have 2: "take (length (interrupted b)) (interrupted c) = interrupted b"
      by (simp add: evolves_def)
    from 1 have "length (take (length (interrupted a)) (interrupted b)) = length (interrupted a)"
      by simp
    then have le: "length (interrupted a) \<le> length (interrupted b)"
      by (simp add: min_def split: if_splits)
    have "take (length (interrupted a)) (interrupted c)
          = take (length (interrupted a)) (take (length (interrupted b)) (interrupted c))"
      using le by (simp add: min_def)
    with 1 2 show ?thesis by simp
  qed
  with ab bc show ?thesis by (auto simp: evolves_def)
qed

lemma quiet_refl [simp]: "quiet st st"
  by (simp add: quiet_def)

lemma quiet_trans: "quiet a b \<Longrightarrow> quiet b c \<Longrightarrow> quiet a c"
  by (simp add: quiet_def)

lemma same_engine_refl [simp]: "same_engine st st"
  by (simp add: same_engine_def)

lemma same_engine_trans: "same_engine a b \<Longrightarrow> same_engine b c \<Longrightarrow> same_engine a c"
  by (simp add: same_engine_def)

lemma click_evolves: "evolves st (click a st)"
  by (cases a; cases "abortControllerRef st"; cases "engineRef st")
     (simp_all add: evolves_def step_defs)

lemma click_same_engine: "\<not> selects a \<Longrightarrow> same_engine st (click a st)"
  by (cases a; cases "abortControllerRef st"; cases "engineRef st")
     (simp_all add: same_engine_def step_defs)

lemma click_dropped: "selects a \<Longrightarrow> engine_dropped (click a st)"
  by (cases a) (simp_all add: engine_dropped_def step_defs)

lemma dropped_not_held: "engine_dropped st \<Longrightarrow> \<not> engine_held st model"
  by (simp add: engine_dropped_def engine_held_def)

lemma click_held: "engine_held (click a st) model \<Longrightarrow> engine_held st model"
  using click_same_engine [of a st] click_dropped [of a st]
  by (cases "selects a") (auto simp: same_engine_def engine_held_def engine_dropped_def)

lemma click_quiet: "a \<noteq> PressStop \<Longrightarrow> quiet st (click a st)"
  by (cases a; cases "abortControllerRef st"; cases "engineRef st")
     (simp_all add: quiet_def step_defs)


lemma onChunk_control:
  "evolves st (onChunk isSvg chunk st) \<and> quiet st (onChunk isSvg chunk st) \<and>
   same_engine st (onChunk isSvg chunk st) \<and>
   interrupted (onChunk isSvg chunk st) = interrupted st"
  by (simp add: evolves_def quiet_def same_engine_def onChunk_def Let_def split: option.splits)

lemma stream_run_control:
  "evolves st (snd (snd (stream_run isSvg signal evs full st))) \<and>
   (\<not> model_changed evs \<longrightarrow> same_engine st (snd (snd (stream_run isSvg signal evs full st)))) \<and>
   (model_changed evs \<longrightarrow> engine_dropped (snd (snd (stream_run isSvg signal evs full st)))) \<and>
   (StreamClick PressStop \<notin> set evs \<longrightarrow> quiet st (snd (snd (stream_run isSvg signal evs full st))))"
proof (induction isSvg signal evs full st rule: stream_run.induct)
  case (1 isSvg signal fullResponse st)
  then show ?case by simp
next
  case (2 isSvg signal content evs fullResponse st)
  then show ?case
    using onChunk_control [of st isSvg content]
    by (auto simp: signal_aborted_def intro: evolves_trans quiet_trans same_engine_trans)
next
  case (3 isSvg signal a evs fullResponse st)
  let ?st1 = "click a st"
  let ?st' = "snd (snd (stream_run isSvg signal evs fullResponse ?st1))"
  from 3 have ih: "evolves ?st1 ?st'" "\<not> model_changed evs \<longrightarrow> same_engine ?st1 ?st'"
    "model_changed evs \<longrightarrow> engine_dropped ?st'"
    "StreamClick PressStop \<notin> set evs \<longrightarrow> quiet ?st1 ?st'"
    by simp_all
  have "evolves st ?st'"
    using click_evolves [of st a] ih(1) by (rule evolves_trans)
  moreover have "\<not> model_changed (StreamClick a # evs) \<longrightarrow> same_engine st ?st'"
    using click_same_engine [of a st] ih(2) by (auto intro: same_engine_trans)
  moreover have "model_changed (StreamClick a # evs) \<longrightarrow> engine_dropped ?st'"
  proof (cases "model_changed evs")
    case True
    with ih(3) show ?thesis by simp
  next
    case False
    with ih(2) have "same_engine ?st1 ?st'" by simp
    with click_dropped [of a st] False show ?thesis
      by (auto simp: same_engine_def engine_dropped_def)
  qed
  moreover have "StreamClick PressStop \<notin> set (StreamClick a # evs) \<longrightarrow> quiet st ?st'"
    using click_quiet [of a st] ih(4) by (auto intro: quiet_trans)
  ultimately show ?case by simp
qed

lemma interrupts_since_trans:
  assumes "evolves a b" "evolves b c"
  shows "interrupts_since a c = interrupts_since a b @ interrupts_since b c"
proof -
  from assms(1) have 1: "take (length (interrupted a)) (interrupted b) = interrupted a"
    by (simp add: evolves_def)
  from assms(2) have 2: "take (length (interrupted b)) (interrupted c) = interrupted b"
    by (simp add: evolves_def)
  from 1 have b: "interrupted b = interrupted a @ interrupts_since a b"
    unfolding interrupts_since_def by (metis append_take_drop_id)
  from 2 have c: "interrupted c = interrupted b @ interrupts_since b c"
    unfolding interrupts_since_def by (metis append_take_drop_id)
  have "interrupts_since a c = drop (length (interrupted a)) (interrupted a @ interrupts_since a b @ interrupts_since b c)"
    unfolding interrupts_since_def [of a c] using b c by simp
  then show ?thesis by simp
qed


lemma init_step_control:
  assumes "init_step signal ev st = Inr st'"
  shows "evolves st st' \<and> (engine_held st' model \<longrightarrow> engine_held st model) \<and>
         (ev \<noteq> InitClick PressStop \<longrightarrow> quiet st st')"
proof (cases ev)
  case (InitProgress percent message)
  with assms show ?thesis
    by (auto simp: init_step_def signal_aborted_def addLog_def evolves_def engine_held_def quiet_def)
next
  case (InitClick a)
  with assms have "st' = click a st" by (simp add: init_step_def)
  with InitClick show ?thesis
    using click_evolves [of st a] click_held [of a st model] click_quiet [of a st] by auto
qed

lemma init_run_control:
  "evolves st (snd (init_run signal evs st)) \<and>
   (engine_held (snd (init_run signal evs st)) model \<longrightarrow> engine_held st model) \<and>
   (InitClick PressStop \<notin> set evs \<longrightarrow> quiet st (snd (init_run signal evs st)))"
proof (induction evs arbitrary: st)
  case Nil
  then show ?case by simp
next
  case (Cons ev evs)
  show ?case
  proof (cases "init_step signal ev st")
    case (Inl e)
    then show ?thesis by simp
  next
    case (Inr st')
    from init_step_control [OF Inr, of model] Cons [of st'] Inr show ?thesis
      by (auto intro: evolves_trans quiet_trans)
  qed
qed

lemma initialize_fresh_control:
  assumes "\<not> engine_held st model"
  shows "evolves st (snd (initialize_fresh model signal sc st)) \<and>
     (InitClick PressStop \<notin> set (init_events sc) \<longrightarrow> quiet st (snd (initialize_fresh model signal sc st))) \<and>
     (\<forall>engine. fst (initialize_fresh model signal sc st) = Inr engine \<longrightarrow>
        engineRef (snd (initialize_fresh model signal sc st)) = Some engine) \<and>
     engine_held (snd (initialize_fresh model signal sc st)) model = engine_created sc"
proof -
  let ?st0 = "st\<lparr>isInitializing := True, statusText := StatusInitializing\<rparr>"
  have c0: "evolves st ?st0" "quiet st ?st0" "engine_held ?st0 model = engine_held st model"
    by (simp_all add: evolves_def quiet_def engine_held_def)
  show ?thesis
  proof (cases rule: initialize_fresh_cases [of signal sc st model])
    case (created engine st')
    from init_run_control [of ?st0 signal "init_events sc" model] created(1) c0
    have "evolves st st'" "InitClick PressStop \<notin> set (init_events sc) \<longrightarrow> quiet st st'"
      by (auto simp: evolves_def quiet_def)
    with created show ?thesis
      by (simp add: evolves_def quiet_def engine_held_def engine_created_def)
  next
    case (failed e st')
    from init_run_control [of ?st0 signal "init_events sc" model] failed(1) c0 assms
    have "evolves st st'" "InitClick PressStop \<notin> set (init_events sc) \<longrightarrow> quiet st st'"
      "\<not> engine_held st' model"
      by (auto simp: evolves_def quiet_def)
    with failed show ?thesis
      by (simp add: evolves_def quiet_def engine_held_def engine_created_def init_failed_def)
  qed
qed

lemma initializeEngine_control:
  "evolves st (snd (initializeEngine model signal sc st)) \<and>
   (InitClick PressStop \<notin> set (init_events sc) \<longrightarrow> quiet st (snd (initializeEngine model signal sc st))) \<and>
   (\<forall>engine. fst (initializeEngine model signal sc st) = Inr engine \<longrightarrow>
      engineRef (snd (initializeEngine model signal sc st)) = Some engine) \<and>
   engine_held (snd (initializeEngine model signal sc st)) model
     = (engine_held st model \<or> engine_created sc)"
proof (cases rule: initializeEngine_cases [of st model signal sc])
  case (reused engine)
  then show ?thesis by simp
next
  case fresh
  with initialize_fresh_control [OF fresh(1), of signal sc] show ?thesis by simp
qed

lemma engine_held_update [simp]:
  "engine_held (st\<lparr>isGenerating := b\<rparr>) model = engine_held st model"
  "engine_held (st\<lparr>statusText := s\<rparr>) model = engine_held st model"
  "engine_held (generate_failed st) model = engine_held st model"
  "engine_held (onGenerationStart attempt now st) model = engine_held st model"
  "engine_held (onGenerationEnd attempt st) model = engine_held st model"
  by (simp_all add: engine_held_def step_defs)

lemma same_engine_held: "same_engine st st' \<Longrightarrow> engine_held st' model = engine_held st model"
  by (simp add: same_engine_def engine_held_def)

lemma generateSVG_control:
  "evolves st (snd (generateSVG isSvg rq signal attempt sc st)) \<and>
   (no_stop_click sc \<longrightarrow> quiet st (snd (generateSVG isSvg rq signal attempt sc st))) \<and>
   engine_held (snd (generateSVG isSvg rq signal attempt sc st)) (modelId rq)
     = engine_after (engine_held st (modelId rq)) sc"
proof -
  let ?st0 = "st\<lparr>isGenerating := True\<rparr>"
  have c0: "evolves st ?st0" "quiet st ?st0"
    by (simp_all add: evolves_def quiet_def)
  note ie = initializeEngine_control [of ?st0 "modelId rq" signal sc]
  note ir = initializeEngine_result [of "modelId rq" signal sc ?st0]
  have init: "evolves st st1 \<and> (no_stop_click sc \<longrightarrow> quiet st st1) \<and>
      engine_held st1 (modelId rq) = (engine_held st (modelId rq) \<or> engine_created sc)"
    if "initializeEngine (modelId rq) signal sc ?st0 = (r, st1)" for r st1
    using ie that c0 by (auto simp: no_stop_click_def evolves_def quiet_def)
  have stream: "evolves st st3 \<and> (no_stop_click sc \<longrightarrow> quiet st st3) \<and>
      engine_held st3 (modelId rq)
        = ((engine_held st (modelId rq) \<or> engine_created sc) \<and> \<not> model_changed (stream_events sc))"
    if i: "initializeEngine (modelId rq) signal sc ?st0 = (r, st1)"
      and s: "stream_run isSvg signal (stream_events sc) []
         (onGenerationStart attempt (clock sc) (st1\<lparr>statusText := StatusGenerating\<rparr>)) = (x, y, st3)"
    for r st1 x y st3
  proof -
    let ?st2 = "onGenerationStart attempt (clock sc) (st1\<lparr>statusText := StatusGenerating\<rparr>)"
    have a: "evolves st ?st2 \<and> (no_stop_click sc \<longrightarrow> quiet st ?st2)"
      using init [OF i] by (simp add: evolves_def quiet_def step_defs)
    from stream_run_control [of ?st2 isSvg signal "stream_events sc" "[]"] s
    have b: "evolves ?st2 st3" "\<not> model_changed (stream_events sc) \<longrightarrow> same_engine ?st2 st3"
      "model_changed (stream_events sc) \<longrightarrow> engine_dropped st3"
      "StreamClick PressStop \<notin> set (stream_events sc) \<longrightarrow> quiet ?st2 st3"
      by simp_all
    from a b(1) have "evolves st st3" by (auto intro: evolves_trans)
    moreover from a b(4) have "no_stop_click sc \<longrightarrow> quiet st st3"
      by (auto simp: no_stop_click_def intro: quiet_trans)
    moreover have "engine_held st3 (modelId rq)
        = ((engine_held st (modelId rq) \<or> engine_created sc) \<and> \<not> model_changed (stream_events sc))"
    proof (cases "model_changed (stream_events sc)")
      case True
      with b(3) dropped_not_held [of st3 "modelId rq"] show ?thesis by simp
    next
      case False
      with b(2) same_engine_held [of ?st2 st3 "modelId rq"] init [OF i] show ?thesis by simp
    qed
    ultimately show ?thesis by simp
  qed
  show ?thesis
  proof (cases rule: generateSVG_cases [of rq signal sc st isSvg attempt])
    case (init_failed e st1)
    from ir init_failed(1) have "\<not> engine_held st (modelId rq) \<and> \<not> engine_created sc"
      by (auto simp: engine_created_def engine_held_def split: if_splits sum.splits)
    with init_failed init [OF init_failed(1)] show ?thesis
      by (auto simp: evolves_def quiet_def generate_failed_def engine_held_def engine_after_def)
  next
    case (open_failed engine st1 e)
    with init [OF open_failed(1)] show ?thesis
      by (simp add: evolves_def quiet_def step_defs engine_held_def engine_after_def)
  next
    case (stream_failed engine st1 st3 e)
    with stream [OF stream_failed(1) stream_failed(3)] show ?thesis
      by (simp add: evolves_def quiet_def generate_failed_def engine_held_def engine_after_def)
  next
    case (returned engine st1 st3)
    with stream [OF returned(1) returned(3)] show ?thesis
      by (simp add: evolves_def quiet_def step_defs engine_held_def engine_after_def)
  qed
qed


section \<open>Validation and the handling of a response\<close>

lemma size_warning_logs:
  "\<exists>logs. size_warning pf sz svg st = st\<lparr>debugLogs := debugLogs st @ logs\<rparr>"
proof (cases "viewBox_match svg")
  case None
  then have "size_warning pf sz svg st = st\<lparr>debugLogs := debugLogs st @ []\<rparr>"
    by (simp add: size_warning_def)
  then show ?thesis by blast
next
  case (Some vb)
  let ?w = "parse_entry pf (js_index (split_ws vb) 2)"
  let ?h = "parse_entry pf (js_index (split_ws vb) 3)"
  show ?thesis
  proof (cases "strict_neq ?w sz \<or> strict_neq ?h sz")
    case True
    with Some have "size_warning pf sz svg st = st\<lparr>debugLogs := debugLogs st @ [LogSizeMismatch sz ?w ?h]\<rparr>"
      by (simp add: size_warning_def addLog_def Let_def)
    then show ?thesis by blast
  next
    case False
    with Some have "size_warning pf sz svg st = st\<lparr>debugLogs := debugLogs st @ []\<rparr>"
      by (simp add: size_warning_def Let_def)
    then show ?thesis by blast
  qed
qed

lemma validate_all_valid:
  "fst (validate_all isSvg pf sz ms acc st) = acc @ filter isSvg ms"
  by (induction ms arbitrary: acc st) simp_all

lemma validate_all_logs:
  "\<exists>logs. snd (validate_all isSvg pf sz ms acc st) = st\<lparr>debugLogs := debugLogs st @ logs\<rparr>"
proof (induction ms arbitrary: acc st)
  case Nil
  have "snd (validate_all isSvg pf sz [] acc st) = st\<lparr>debugLogs := debugLogs st @ []\<rparr>" by simp
  then show ?case by blast
next
  case (Cons svg ms)
  show ?case
  proof (cases "isSvg svg")
    case False
    from Cons [of acc "addLog LogInvalidFormat st"] obtain logs where
      "snd (validate_all isSvg pf sz ms acc (addLog LogInvalidFormat st))
       = (addLog LogInvalidFormat st)\<lparr>debugLogs := debugLogs (addLog LogInvalidFormat st) @ logs\<rparr>"
      by blast
    with False have "snd (validate_all isSvg pf sz (svg # ms) acc st)
       = st\<lparr>debugLogs := debugLogs st @ (LogInvalidFormat # logs)\<rparr>"
      by (simp add: addLog_def)
    then show ?thesis by blast
  next
    case True
    obtain l1 where l1: "size_warning pf sz svg st = st\<lparr>debugLogs := debugLogs st @ l1\<rparr>"
      using size_warning_logs by blast
    from Cons [of "acc @ [svg]" "size_warning pf sz svg st"] obtain logs where
      "snd (validate_all isSvg pf sz ms (acc @ [svg]) (size_warning pf sz svg st))
       = (size_warning pf sz svg st)\<lparr>debugLogs := debugLogs (size_warning pf sz svg st) @ logs\<rparr>"
      by blast
    with True l1 have "snd (validate_all isSvg pf sz (svg # ms) acc st)
       = st\<lparr>debugLogs := debugLogs st @ (l1 @ logs)\<rparr>"
      by simp
    then show ?thesis by blast
  qed
qed

lemma validate_all_keeps_logs:
  "set (debugLogs st) \<subseteq> set (debugLogs (snd (validate_all isSvg pf sz ms acc st)))"
proof -
  obtain logs where "snd (validate_all isSvg pf sz ms acc st) = st\<lparr>debugLogs := debugLogs st @ logs\<rparr>"
    using validate_all_logs by blast
  then show ?thesis by simp
qed

lemma validate_all_warns:
  assumes "svg \<in> set ms" "isSvg svg" "viewBox_match svg = Some vb"
    "strict_neq (parse_entry pf (js_index (split_ws vb) 2)) sz \<or>
     strict_neq (parse_entry pf (js_index (split_ws vb) 3)) sz"
  shows "LogSizeMismatch sz (parse_entry pf (js_index (split_ws vb) 2))
           (parse_entry pf (js_index (split_ws vb) 3))
         \<in> set (debugLogs (snd (validate_all isSvg pf sz ms acc st)))"
  using assms(1)
proof (induction ms arbitrary: acc st)
  case Nil
  then show ?case by simp
next
  case (Cons x ms)
  let ?m = "LogSizeMismatch sz (parse_entry pf (js_index (split_ws vb) 2))
           (parse_entry pf (js_index (split_ws vb) 3))"
  show ?case
  proof (cases "x = svg")
    case True
    have "?m \<in> set (debugLogs (size_warning pf sz svg st))"
      using assms(3,4) by (auto simp: size_warning_def addLog_def Let_def)
    then have "?m \<in> set (debugLogs (snd (validate_all isSvg pf sz ms (acc @ [svg]) (size_warning pf sz svg st))))"
      using validate_all_keeps_logs by blast
    with True assms(2) show ?thesis by simp
  next
    case False
    with Cons.prems have "svg \<in> set ms" by simp
    then show ?thesis using Cons.IH by simp
  qed
qed

lemma process_response_cases:
  obtains (no_match) "match_global fullResponse = []"
      "process_response isSvg pf rq attempt fullResponse st = no_candidates attempt (addLog LogCompleted st)"
  | (invalid) logs where "match_global fullResponse \<noteq> []"
      "filter isSvg (match_global fullResponse) = []"
      "snd (validate_all isSvg pf (size_px rq) (match_global fullResponse) [] (addLog LogCompleted st))
       = st\<lparr>debugLogs := debugLogs st @ LogCompleted # logs\<rparr>"
      "process_response isSvg pf rq attempt fullResponse st
       = none_valid attempt (st\<lparr>debugLogs := debugLogs st @ LogCompleted # logs\<rparr>)"
  | (valid) logs where "filter isSvg (match_global fullResponse) \<noteq> []"
      "snd (validate_all isSvg pf (size_px rq) (match_global fullResponse) [] (addLog LogCompleted st))
       = st\<lparr>debugLogs := debugLogs st @ LogCompleted # logs\<rparr>"
      "process_response isSvg pf rq attempt fullResponse st
       = Return (Succeeded (filter isSvg (match_global fullResponse)))
           (accept rq attempt (filter isSvg (match_global fullResponse))
              (st\<lparr>debugLogs := debugLogs st @ LogCompleted # logs\<rparr>))"
proof (cases "match_global fullResponse")
  case Nil
  then show thesis by (intro no_match) (simp_all add: process_response_def js_match_def)
next
  case (Cons m ms)
  let ?v = "validate_all isSvg pf (size_px rq) (match_global fullResponse) [] (addLog LogCompleted st)"
  obtain logs where "snd ?v = (addLog LogCompleted st)\<lparr>debugLogs := debugLogs (addLog LogCompleted st) @ logs\<rparr>"
    using validate_all_logs by blast
  then have l: "snd ?v = st\<lparr>debugLogs := debugLogs st @ LogCompleted # logs\<rparr>"
    by (simp add: addLog_def)
  have f: "fst ?v = filter isSvg (match_global fullResponse)"
    by (simp add: validate_all_valid)
  from Cons have jm: "js_match fullResponse = Some (match_global fullResponse)"
    and len: "length (match_global fullResponse) \<noteq> 0"
    by (simp_all add: js_match_def)
  obtain v s where vs: "?v = (v, s)" by (cases ?v)
  with f have v: "v = filter isSvg (match_global fullResponse)" by simp
  have "process_response isSvg pf rq attempt fullResponse st =
      (if length v = 0 then none_valid attempt s else Return (Succeeded v) (accept rq attempt v s))"
    unfolding process_response_def jm using len vs by simp
  with v vs have pr: "process_response isSvg pf rq attempt fullResponse st =
      (if filter isSvg (match_global fullResponse) = [] then none_valid attempt (snd ?v)
       else Return (Succeeded (filter isSvg (match_global fullResponse)))
              (accept rq attempt (filter isSvg (match_global fullResponse)) (snd ?v)))"
    by simp
  show thesis
  proof (cases "filter isSvg (match_global fullResponse) = []")
    case True
    with l pr show thesis using Cons by (intro invalid [of logs]) simp_all
  next
    case False
    with l pr show thesis by (intro valid [of logs]) simp_all
  qed
qed

section \<open>One iteration of the loop\<close>

lemma loop_step:
  assumes "attempt < maxRetries" "\<not> shouldStopRef st"
  shows "generation_loop isSvg pf rq env attempt st =
     (case attempt_body isSvg pf rq (env (Suc attempt)) (Suc attempt) st of
        Return t st' \<Rightarrow> (t, Suc attempt, st')
      | Continue st' \<Rightarrow> generation_loop isSvg pf rq env (Suc attempt) st')"
  using assms by (subst generation_loop.simps) simp

lemma loop_stop:
  assumes "attempt < maxRetries" "shouldStopRef st"
  shows "generation_loop isSvg pf rq env attempt st = (Stopped, attempt, stop_exit st)"
  using assms by (subst generation_loop.simps) simp

lemma loop_exhausted:
  assumes "\<not> attempt < maxRetries"
  shows "generation_loop isSvg pf rq env attempt st
         = (FatalFailed MaxRetriesReached, attempt, exhausted_exit st)"
  using assms by (subst generation_loop.simps) simp

lemma begin_attempt_control:
  "kept st (begin_attempt attempt st) \<and> evolves st (begin_attempt attempt st) \<and>
   quiet st (begin_attempt attempt st) \<and> same_engine st (begin_attempt attempt st) \<and>
   interrupted (begin_attempt attempt st) = interrupted st \<and>
   extractedSVGs (begin_attempt attempt st) = extractedSVGs st"
  by (simp add: begin_attempt_def Let_def addLog_def kept_def evolves_def quiet_def same_engine_def)

lemma begin_attempt_resets:
  "1 < attempt \<Longrightarrow> currentOutput (begin_attempt attempt st) = [] \<and>
     aiRawOutput (begin_attempt attempt st) = []"
  by (simp add: begin_attempt_def Let_def addLog_def)

lemma after_call_control:
  "kept st (after_call isSvg rq sc attempt st) \<and> evolves st (after_call isSvg rq sc attempt st) \<and>
   (no_stop_click sc \<longrightarrow> quiet st (after_call isSvg rq sc attempt st)) \<and>
   engine_held (after_call isSvg rq sc attempt st) (modelId rq)
     = engine_after (engine_held st (modelId rq)) sc"
proof -
  let ?b = "begin_attempt attempt st"
  note b = begin_attempt_control [of st attempt]
  note g = generateSVG_control [of ?b isSvg rq "abortControllerRef ?b" attempt sc]
  note k = kept_generateSVG [of ?b isSvg rq "abortControllerRef ?b" attempt sc]
  have "kept st (after_call isSvg rq sc attempt st)"
    unfolding after_call_def using b k by (blast intro: kept_trans)
  moreover have "evolves st (after_call isSvg rq sc attempt st)"
    unfolding after_call_def using b g by (blast intro: evolves_trans)
  moreover have "no_stop_click sc \<longrightarrow> quiet st (after_call isSvg rq sc attempt st)"
    unfolding after_call_def using b g by (blast intro: quiet_trans)
  moreover have "engine_held (after_call isSvg rq sc attempt st) (modelId rq)
     = engine_after (engine_held st (modelId rq)) sc"
    unfolding after_call_def using b g same_engine_held [of st ?b "modelId rq"] by simp
  ultimately show ?thesis by simp
qed

lemma attempt_body_cases:
  obtains (returned) fullResponse where
      "script_result (engine_held st (modelId rq)) sc = Inr fullResponse"
      "attempt_body isSvg pf rq sc attempt st
       = process_response isSvg pf rq attempt fullResponse (after_call isSvg rq sc attempt st)"
  | (threw) e where
      "script_result (engine_held st (modelId rq)) sc = Inl e"
      "attempt_body isSvg pf rq sc attempt st = handle_error attempt e (after_call isSvg rq sc attempt st)"
proof -
  let ?b = "begin_attempt attempt st"
  let ?g = "generateSVG isSvg rq (abortControllerRef ?b) attempt sc ?b"
  have held: "engine_held ?b (modelId rq) = engine_held st (modelId rq)"
    using begin_attempt_control [of st attempt] same_engine_held by blast
  have r: "fst ?g = script_result (engine_held st (modelId rq)) sc"
    using generateSVG_result [of isSvg rq "abortControllerRef ?b" attempt sc ?b] held by simp
  obtain x st2 where g: "?g = (x, st2)" by (cases ?g)
  then have st2: "after_call isSvg rq sc attempt st = st2" by (simp add: after_call_def)
  show thesis
  proof (cases x)
    case (Inl e)
    with g r have sr: "script_result (engine_held st (modelId rq)) sc = Inl e" by simp
    from g Inl st2 have "attempt_body isSvg pf rq sc attempt st
        = handle_error attempt e (after_call isSvg rq sc attempt st)"
      by (simp add: attempt_body_def Let_def)
    with sr show thesis by (rule threw)
  next
    case (Inr fullResponse)
    with g r have sr: "script_result (engine_held st (modelId rq)) sc = Inr fullResponse" by simp
    from g Inr st2 have "attempt_body isSvg pf rq sc attempt st
        = process_response isSvg pf rq attempt fullResponse (after_call isSvg rq sc attempt st)"
      by (simp add: attempt_body_def Let_def)
    with sr show thesis by (rule returned)
  qed
qed

section \<open>The blocks the live preview stores\<close>








section \<open>The loop over recoverable attempts\<close>

lemma loop_bound:
  "fst (snd (generation_loop isSvg pf rq env attempt st)) \<le> max attempt maxRetries"
proof (induction isSvg pf rq env attempt st rule: generation_loop.induct)
  case (1 isSvg pf rq env attempt st)
  show ?case
  proof (cases "attempt < maxRetries")
    case False
    then show ?thesis by (simp add: loop_exhausted)
  next
    case True
    show ?thesis
    proof (cases "shouldStopRef st")
      case stop: True
      with True show ?thesis by (simp add: loop_stop)
    next
      case go: False
      show ?thesis
      proof (cases "attempt_body isSvg pf rq (env (Suc attempt)) (Suc attempt) st")
        case (Return t st')
        with True go show ?thesis by (simp add: loop_step)
      next
        case (Continue st')
        with True go "1.IH" [OF True go Continue] show ?thesis by (simp add: loop_step)
      qed
    qed
  qed
qed

lemma recoverable_step:
  assumes go: "\<not> shouldStopRef st"
    and rec: "recoverable isSvg (engine_held st (modelId rq)) sc"
  shows "\<exists>c. attempt_cause isSvg (engine_held st (modelId rq)) sc = Some c \<and>
     (if attempt < maxRetries
      then \<exists>st'. attempt_body isSvg pf rq sc attempt st = Continue st' \<and> \<not> shouldStopRef st' \<and>
             engine_held st' (modelId rq) = engine_after (engine_held st (modelId rq)) sc
      else \<exists>st'. attempt_body isSvg pf rq sc attempt st = Return (FatalFailed c) st')"
proof -
  let ?st2 = "after_call isSvg rq sc attempt st"
  from rec obtain c where c: "attempt_cause isSvg (engine_held st (modelId rq)) sc = Some c"
    and quiet_sc: "no_stop_click sc"
    by (auto simp: recoverable_def)
  from after_call_control [of st isSvg rq sc attempt] quiet_sc go
  have s2: "\<not> shouldStopRef ?st2"
    and h2: "engine_held ?st2 (modelId rq) = engine_after (engine_held st (modelId rq)) sc"
    by (simp_all add: quiet_def)
  have upd: "engine_held (x\<lparr>debugLogs := l\<rparr>) m = engine_held x m"
    "engine_held (x\<lparr>startTime := t\<rparr>) m = engine_held x m" for x l t m
    by (simp_all add: engine_held_def)
  have "if attempt < maxRetries
      then \<exists>st'. attempt_body isSvg pf rq sc attempt st = Continue st' \<and> \<not> shouldStopRef st' \<and>
             engine_held st' (modelId rq) = engine_after (engine_held st (modelId rq)) sc
      else \<exists>st'. attempt_body isSvg pf rq sc attempt st = Return (FatalFailed c) st'"
  proof (cases rule: attempt_body_cases [of st rq sc isSvg pf attempt])
    case (threw e)
    with c have e: "\<not> is_abort e" "c = TransportFailure e"
      by (auto simp: attempt_cause_def split: if_splits)
    with threw(2) s2 h2 show ?thesis
      by (simp add: handle_error_def Let_def addLog_def upd)
  next
    case (returned fullResponse)
    show ?thesis
    proof (cases rule: process_response_cases [of fullResponse isSvg pf rq attempt ?st2])
      case no_match
      with returned c have "c = NoMatchFound" by (simp add: attempt_cause_def)
      with no_match returned(2) s2 h2 show ?thesis
        by (simp add: no_candidates_def Let_def addLog_def upd)
    next
      case (invalid logs)
      with returned c have "c = NoValidMatch" by (simp add: attempt_cause_def)
      with invalid returned(2) s2 h2 show ?thesis
        by (simp add: none_valid_def Let_def addLog_def upd)
    next
      case (valid logs)
      with returned c show ?thesis by (simp add: attempt_cause_def split: if_splits)
    qed
  qed
  with c show ?thesis by blast
qed

lemma loop_recoverable:
  assumes "attempt < maxRetries" "\<not> shouldStopRef st"
    and "engine_held st (modelId rq) = reuse_at env r attempt"
    and "\<forall>k. attempt < k \<and> k \<le> maxRetries \<longrightarrow> recoverable isSvg (reuse_at env r (k - 1)) (env k)"
  shows "\<exists>c st'. attempt_cause isSvg (reuse_at env r (maxRetries - 1)) (env maxRetries) = Some c \<and>
           generation_loop isSvg pf rq env attempt st = (FatalFailed c, maxRetries, st')"
  using assms
proof (induction "maxRetries - attempt" arbitrary: attempt st)
  case 0
  then show ?case by simp
next
  case (Suc n)
  let ?sc = "env (Suc attempt)"
  from Suc.prems(1) have "attempt < Suc attempt \<and> Suc attempt \<le> maxRetries" by simp
  with Suc.prems(4) have "recoverable isSvg (reuse_at env r (Suc attempt - 1)) ?sc" by blast
  with Suc.prems(3) have rec: "recoverable isSvg (engine_held st (modelId rq)) ?sc" by simp
  from recoverable_step [OF Suc.prems(2) rec, of "Suc attempt" pf]
  obtain c where c: "attempt_cause isSvg (engine_held st (modelId rq)) ?sc = Some c"
    and step: "if Suc attempt < maxRetries
      then \<exists>st'. attempt_body isSvg pf rq ?sc (Suc attempt) st = Continue st' \<and> \<not> shouldStopRef st' \<and>
             engine_held st' (modelId rq) = engine_after (engine_held st (modelId rq)) ?sc
      else \<exists>st'. attempt_body isSvg pf rq ?sc (Suc attempt) st = Return (FatalFailed c) st'"
    by blast
  note unfold = loop_step [OF Suc.prems(1,2), of isSvg pf rq env]
  show ?case
  proof (cases "Suc attempt < maxRetries")
    case True
    with step obtain st' where b: "attempt_body isSvg pf rq ?sc (Suc attempt) st = Continue st'"
      and s: "\<not> shouldStopRef st'"
      and h: "engine_held st' (modelId rq) = engine_after (engine_held st (modelId rq)) ?sc"
      by auto
    from h Suc.prems(3) have h': "engine_held st' (modelId rq) = reuse_at env r (Suc attempt)"
      by simp
    from Suc.hyps(2) have n: "n = maxRetries - Suc attempt" by simp
    from Suc.prems(4) have rest: "\<forall>k. Suc attempt < k \<and> k \<le> maxRetries \<longrightarrow>
        recoverable isSvg (reuse_at env r (k - 1)) (env k)" by simp
    from Suc.hyps(1) [OF n True s h' rest] unfold b show ?thesis by simp
  next
    case False
    with Suc.prems(1) have last: "Suc attempt = maxRetries" by simp
    with step obtain st' where "attempt_body isSvg pf rq ?sc (Suc attempt) st = Return (FatalFailed c) st'"
      by auto
    with unfold have "generation_loop isSvg pf rq env attempt st = (FatalFailed c, maxRetries, st')"
      using last by simp
    moreover from last have "maxRetries - 1 = attempt" by simp
    with c Suc.prems(3) last
    have "attempt_cause isSvg (reuse_at env r (maxRetries - 1)) (env maxRetries) = Some c"
      by (simp only:)
    ultimately show ?thesis by blast
  qed
qed

lemma start_generation_control:
  "\<not> shouldStopRef (start_generation rq st) \<and>
   engine_held (start_generation rq st) m = engine_held st m \<and>
   abortControllerRef (start_generation rq st) = Some (controllers st) \<and>
   controllers (start_generation rq st) = Suc (controllers st) \<and>
   cachedModels (start_generation rq st) = cachedModels st \<and>
   interrupted (start_generation rq st) = interrupted st"
  by (simp add: start_generation_def addLog_def engine_held_def)

section \<open>Stop and retry during an attempt\<close>

lemma click_interrupts:
  assumes "abortControllerRef st \<noteq> None" "engineRef st = Some engine" "\<not> selects a"
  shows "interrupted (click a st) = interrupted st @ [engine]"
  using assms by (cases a; cases "abortControllerRef st") (simp_all add: step_defs)

lemma stream_run_retry:
  assumes "abortControllerRef st \<noteq> None" "engineRef st = Some engine"
    "StreamClick PressStop \<notin> set evs" "StreamClick PressRetry \<in> set evs"
    "\<not> model_changed evs"
  shows "engine \<in> set (interrupts_since st (snd (snd (stream_run isSvg signal evs full st))))"
  using assms
proof (induction isSvg signal evs full st rule: stream_run.induct)
  case (1 isSvg signal fullResponse st)
  then show ?case by simp
next
  case (2 isSvg signal content evs fullResponse st)
  let ?st1 = "onChunk isSvg content st"
  let ?st' = "snd (snd (stream_run isSvg signal evs (fullResponse @ content) ?st1))"
  from onChunk_control [of st isSvg content]
  have c: "abortControllerRef ?st1 = abortControllerRef st" "engineRef ?st1 = engineRef st"
    "interrupted ?st1 = interrupted st"
    by (simp_all add: quiet_def same_engine_def)
  with 2 have "engine \<in> set (interrupts_since ?st1 ?st')"
    by (simp add: signal_aborted_def)
  then show ?case using c by (simp add: signal_aborted_def interrupts_since_def)
next
  case (3 isSvg signal a evs fullResponse st)
  let ?st1 = "click a st"
  let ?st' = "snd (snd (stream_run isSvg signal evs fullResponse ?st1))"
  from "3.prems"(5) have na: "\<not> selects a" by simp
  have ev1: "evolves st ?st1" by (rule click_evolves)
  have ev2: "evolves ?st1 ?st'" using stream_run_control [of ?st1 isSvg signal evs fullResponse] by simp
  have "interrupts_since st ?st1 = [engine]"
    using click_interrupts [OF "3.prems"(1,2) na] by (simp add: interrupts_since_def)
  with interrupts_since_trans [OF ev1 ev2] show ?case by simp
qed

lemma generateSVG_retry:
  assumes ctrl: "abortControllerRef st \<noteq> None"
    and quiet_sc: "no_stop_click sc"
    and retry: "StreamClick PressRetry \<in> set (stream_events sc)"
    and keep: "\<not> model_changed (stream_events sc)"
    and engine: "engine_held st (modelId rq) \<or> engine_created sc"
    and opened: "open_stream sc = None"
  shows "\<exists>engine. engineRef (snd (generateSVG isSvg rq signal attempt sc st)) = Some engine \<and>
        engine \<in> set (interrupts_since st (snd (generateSVG isSvg rq signal attempt sc st)))"
proof -
  let ?st0 = "st\<lparr>isGenerating := True\<rparr>"
  note ie = initializeEngine_control [of ?st0 "modelId rq" signal sc]
  note ir = initializeEngine_result [of "modelId rq" signal sc ?st0]
  from quiet_sc have init: "InitClick PressStop \<notin> set (init_events sc)"
    and nostop: "StreamClick PressStop \<notin> set (stream_events sc)"
    by (simp_all add: no_stop_click_def)
  have stream: "engineRef st3 = Some engine \<and> engine \<in> set (interrupts_since st st3)"
    if i: "initializeEngine (modelId rq) signal sc ?st0 = (Inr engine, st1)"
      and s: "stream_run isSvg signal (stream_events sc) []
         (onGenerationStart attempt (clock sc) (st1\<lparr>statusText := StatusGenerating\<rparr>)) = (x, y, st3)"
    for engine st1 x y st3
  proof -
    let ?st2 = "onGenerationStart attempt (clock sc) (st1\<lparr>statusText := StatusGenerating\<rparr>)"
    from ie i init have e1: "evolves ?st0 st1" and q1: "quiet ?st0 st1"
      and eng: "engineRef st1 = Some engine" by simp_all
    have e2: "evolves st ?st2" using e1 by (simp add: evolves_def step_defs)
    have c2: "abortControllerRef ?st2 \<noteq> None" using q1 ctrl by (simp add: quiet_def step_defs)
    have g2: "engineRef ?st2 = Some engine" using eng by (simp add: step_defs)
    from stream_run_retry [OF c2 g2 nostop retry keep, of isSvg signal "[]"] s
    have st3: "engine \<in> set (interrupts_since ?st2 st3)" by simp
    from stream_run_control [of ?st2 isSvg signal "stream_events sc" "[]"] s keep
    have e3: "evolves ?st2 st3" and se: "same_engine ?st2 st3" by simp_all
    from interrupts_since_trans [OF e2 e3] st3
    have "engine \<in> set (interrupts_since st st3)" by simp
    with se g2 show ?thesis by (simp add: same_engine_def)
  qed
  show ?thesis
  proof (cases rule: generateSVG_cases [of rq signal sc st isSvg attempt])
    case (init_failed e st1)
    with ir engine show ?thesis by (auto simp: engine_created_def split: sum.splits)
  next
    case (open_failed engine st1 e)
    with opened show ?thesis by simp
  next
    case (stream_failed engine st1 st3 e)
    with stream [OF stream_failed(1) stream_failed(3)] show ?thesis
      by (simp add: generate_failed_def interrupts_since_def)
  next
    case (returned engine st1 st3)
    with stream [OF returned(1) returned(3)] show ?thesis
      by (simp add: step_defs interrupts_since_def)
  qed
qed

lemma interrupts_since_begin:
  "interrupts_since (begin_attempt attempt st) x = interrupts_since st x"
  using begin_attempt_control [of st attempt] by (simp add: interrupts_since_def)


lemma after_call_retry:
  assumes "abortControllerRef st \<noteq> None" "no_stop_click sc"
    "StreamClick PressRetry \<in> set (stream_events sc)" "\<not> model_changed (stream_events sc)"
    "engine_held st (modelId rq) \<or> engine_created sc" "open_stream sc = None"
  shows "\<exists>engine. engineRef (after_call isSvg rq sc attempt st) = Some engine \<and>
        engine \<in> set (interrupts_since st (after_call isSvg rq sc attempt st))"
proof -
  let ?b = "begin_attempt attempt st"
  note b = begin_attempt_control [of st attempt]
  from b assms(1) have c: "abortControllerRef ?b \<noteq> None" by (simp add: quiet_def)
  from b assms(5) have h: "engine_held ?b (modelId rq) \<or> engine_created sc"
    using same_engine_held [of st ?b "modelId rq"] by simp
  from generateSVG_retry [OF c assms(2,3,4) h assms(6), of isSvg "abortControllerRef ?b" attempt]
  show ?thesis by (simp add: after_call_def interrupts_since_begin)
qed





lemma skip_step:
  assumes go: "\<not> shouldStopRef st" and quiet_sc: "no_stop_click sc"
    and thrown: "script_result (engine_held st (modelId rq)) sc = Inl e" and abort: "is_abort e"
  shows "attempt_body isSvg pf rq sc attempt st
         = Continue ((addLog LogSkipping ((after_call isSvg rq sc attempt st)\<lparr>startTime := None\<rparr>))
              \<lparr>abortControllerRef := Some (controllers st), controllers := Suc (controllers st)\<rparr>)"
proof -
  let ?st2 = "after_call isSvg rq sc attempt st"
  from after_call_control [of st isSvg rq sc attempt] quiet_sc go
  have s2: "\<not> shouldStopRef ?st2" and k: "controllers ?st2 = controllers st"
    by (simp_all add: quiet_def kept_def)
  show ?thesis
  proof (cases rule: attempt_body_cases [of st rq sc isSvg pf attempt])
    case (returned fullResponse)
    with thrown show ?thesis by simp
  next
    case (threw e')
    with thrown have "e' = e" by simp
    with threw(2) abort s2 k show ?thesis
      by (simp add: handle_error_def Let_def)
  qed
qed

section \<open>The selected index across the loop\<close>

lemma attempt_body_selection:
  "(case attempt_body isSvg pf rq sc attempt st of
      Continue s \<Rightarrow> selectedSVGIndex s = selectedSVGIndex st
    | Return t s \<Rightarrow> selectedSVGIndex s = selection_after st t)"
proof -
  let ?st2 = "after_call isSvg rq sc attempt st"
  have k: "selectedSVGIndex ?st2 = selectedSVGIndex st"
    using after_call_control [of st isSvg rq sc attempt] by (simp add: kept_def)
  show ?thesis
  proof (cases rule: attempt_body_cases [of st rq sc isSvg pf attempt])
    case (threw e)
    with k show ?thesis
      by (simp add: handle_error_def Let_def addLog_def show_toast_def selection_after_def)
  next
    case (returned fullResponse)
    show ?thesis
    proof (cases rule: process_response_cases [of fullResponse isSvg pf rq attempt ?st2])
      case no_match
      with returned k show ?thesis
        by (simp add: no_candidates_def Let_def addLog_def show_toast_def selection_after_def)
    next
      case (invalid logs)
      with returned k show ?thesis
        by (simp add: none_valid_def Let_def addLog_def show_toast_def selection_after_def)
    next
      case (valid logs)
      with returned show ?thesis
        by (simp add: accept_def addLog_def show_toast_def selection_after_def)
    qed
  qed
qed

lemma selection_after_cong:
  "selectedSVGIndex s = selectedSVGIndex st \<Longrightarrow> selection_after s t = selection_after st t"
  by (simp add: selection_after_def split: terminal.splits)

lemma loop_selection:
  "selectedSVGIndex (snd (snd (generation_loop isSvg pf rq env attempt st)))
   = selection_after st (fst (generation_loop isSvg pf rq env attempt st))"
proof (induction isSvg pf rq env attempt st rule: generation_loop.induct)
  case (1 isSvg pf rq env attempt st)
  show ?case
  proof (cases "attempt < maxRetries")
    case False
    then show ?thesis
      by (simp add: loop_exhausted exhausted_exit_def show_toast_def selection_after_def)
  next
    case True
    show ?thesis
    proof (cases "shouldStopRef st")
      case stop: True
      with True show ?thesis
        by (simp add: loop_stop stop_exit_def addLog_def selection_after_def)
    next
      case go: False
      note b = attempt_body_selection [where isSvg = isSvg and pf = pf and rq = rq
          and sc = "env (Suc attempt)" and attempt = "Suc attempt" and st = st]
      show ?thesis
      proof (cases "attempt_body isSvg pf rq (env (Suc attempt)) (Suc attempt) st")
        case (Return t s)
        with True go b show ?thesis by (simp add: loop_step)
      next
        case (Continue s)
        with b have "selectedSVGIndex s = selectedSVGIndex st" by simp
        with "1.IH" [OF True go Continue] selection_after_cong [of s st]
        show ?thesis using True go Continue by (simp add: loop_step)
      qed
    qed
  qed
qed

section \<open>The claims\<close>

text \<open>
  C4, as stated, fails for a block that holds a closing tag before its own: the match is
  lazy and ends at the first closing tag. One block whose tags nest, an outer element
  with two inner ones, gives two fragments, and neither is the block.
\<close>

theorem nested_block_counterexample:
  "balanced_block nested_svg \<and>
   js_match nested_svg = Some [''<svg><svg></svg>'', ''<svg></svg>'']"
  by code_simp

text \<open>
  C4, amended. A buffer gives no candidate (the match is \<^verbatim>\<open>null\<close>) exactly when no
  opening tag in it is followed by a closing tag. A buffer made of \<open>n\<close> blocks, each
  from an opening tag in any case to the first closing tag behind it, separated by text
  without opening tag, gives exactly these \<open>n\<close> blocks, from left to right: they are
  the answer of the match that \<^verbatim>\<open>handleGenerate\<close> and \<^verbatim>\<open>onChunk\<close> call, which is
  \<^verbatim>\<open>null\<close> for \<open>n = 0\<close>.
\<close>

theorem extraction_finds_blocks:
  "(js_match buf = None \<longleftrightarrow> \<not> has_span buf) \<and>
   (\<not> has_span buf \<longrightarrow> match_global buf = []) \<and>
   (gap_ok g0 \<and> (\<forall>(b, g) \<in> set bgs. minimal_block b \<and> gap_ok g) \<longrightarrow>
      js_match (assemble g0 bgs) = (if bgs = [] then None else Some (map fst bgs)) \<and>
      match_global (assemble g0 bgs) = map fst bgs \<and>
      length (match_global (assemble g0 bgs)) = length bgs)"
proof (intro conjI impI)
  have "js_match buf = None \<longleftrightarrow> match_global buf = []"
    by (cases "match_global buf") (simp_all add: js_match_def)
  then show "js_match buf = None \<longleftrightarrow> \<not> has_span buf"
    by (simp add: match_global_Nil_iff)
next
  assume "\<not> has_span buf"
  then show "match_global buf = []" by (simp add: match_global_Nil_iff)
next
  assume a: "gap_ok g0 \<and> (\<forall>(b, g) \<in> set bgs. minimal_block b \<and> gap_ok g)"
  then show m: "match_global (assemble g0 bgs) = map fst bgs"
    by (simp add: match_global_assemble)
  then show "length (match_global (assemble g0 bgs)) = length bgs" by simp
  from m show "js_match (assemble g0 bgs) = (if bgs = [] then None else Some (map fst bgs))"
    by (cases bgs) (simp_all add: js_match_def)
qed

theorem extraction_finds_blocks_witness:
  "\<not> has_span ''no graphics here'' \<and> js_match ''no graphics here'' = None \<and>
   gap_ok ''ab'' \<and> minimal_block ''<svg>x</svg>'' \<and> gap_ok ''cd'' \<and>
   minimal_block ''<SVG a=1></SvG>'' \<and>
   js_match ''ab<svg>x</svg>cd<SVG a=1></SvG>'' = Some [''<svg>x</svg>'', ''<SVG a=1></SvG>''] \<and>
   length (match_global ''ab<svg>x</svg>cd<SVG a=1></SvG>'') = 2"
proof -
  have h1: "\<not> has_span ''no graphics here''" by code_simp
  have h2: "gap_ok ''ab''" "minimal_block ''<svg>x</svg>''" "gap_ok ''cd''"
    "minimal_block ''<SVG a=1></SvG>''" "gap_ok []"
    by code_simp+
  have h3: "assemble ''ab'' [(''<svg>x</svg>'', ''cd''), (''<SVG a=1></SvG>'', [])]
            = ''ab<svg>x</svg>cd<SVG a=1></SvG>''"
    by simp
  from extraction_finds_blocks [of "''no graphics here''" "''ab''"
      "[(''<svg>x</svg>'', ''cd''), (''<SVG a=1></SvG>'', [])]"] h1 h2
  show ?thesis unfolding h3 by simp
qed

text \<open>
  C8. \<^verbatim>\<open>initializeEngine\<close> returns the engine it holds, and leaves the state as it is,
  when that engine was initialised for the requested model. When no engine is held, or
  the one held was initialised for another model, it creates one: its outcome is that of
  the creation; an engine created is recorded together with the requested model, so that
  the next call for this model returns it without creating; after a failed creation no
  engine is held for the model. \<^verbatim>\<open>resetEngine\<close>, and a change of model, which calls it,
  clear the engine and the current model, so the next \<^verbatim>\<open>initializeEngine\<close> creates an
  engine.
\<close>

theorem engine_reuse_and_reset:
  "(engineRef st = Some engine \<and> currentModelRef st = Some model \<longrightarrow>
      initializeEngine model signal sc st = (Inr engine, st)) \<and>
   (engineRef st = None \<or> currentModelRef st \<noteq> Some model \<longrightarrow>
      fst (initializeEngine model signal sc st) = create_engine sc \<and>
      (\<forall>created. create_engine sc = Inr created \<longrightarrow>
         engineRef (snd (initializeEngine model signal sc st)) = Some created \<and>
         currentModelRef (snd (initializeEngine model signal sc st)) = Some model \<and>
         initializeEngine model signal2 sc2 (snd (initializeEngine model signal sc st))
           = (Inr created, snd (initializeEngine model signal sc st))) \<and>
      (\<forall>e. create_engine sc = Inl e \<longrightarrow>
         \<not> engine_held (snd (initializeEngine model signal sc st)) model)) \<and>
   engineRef (resetEngine st) = None \<and> currentModelRef (resetEngine st) = None \<and>
   engineRef (handleModelChange v st) = None \<and> currentModelRef (handleModelChange v st) = None \<and>
   fst (initializeEngine model signal sc (resetEngine st)) = create_engine sc \<and>
   fst (initializeEngine model signal sc (handleModelChange v st)) = create_engine sc"
proof -
  have fresh: "fst (initialize_fresh model signal sc s) = create_engine sc" for s
    by (cases rule: initialize_fresh_cases [of signal sc s model]) simp_all
  have reuse: "engineRef st = Some engine \<and> currentModelRef st = Some model \<longrightarrow>
      initializeEngine model signal sc st = (Inr engine, st)"
    by (simp add: initializeEngine_def)
  have create: "fst (initializeEngine model signal sc st) = create_engine sc \<and>
      (\<forall>created. create_engine sc = Inr created \<longrightarrow>
         engineRef (snd (initializeEngine model signal sc st)) = Some created \<and>
         currentModelRef (snd (initializeEngine model signal sc st)) = Some model \<and>
         initializeEngine model signal2 sc2 (snd (initializeEngine model signal sc st))
           = (Inr created, snd (initializeEngine model signal sc st))) \<and>
      (\<forall>e. create_engine sc = Inl e \<longrightarrow>
         \<not> engine_held (snd (initializeEngine model signal sc st)) model)"
    if nh: "engineRef st = None \<or> currentModelRef st \<noteq> Some model"
  proof -
    from nh have not_held: "\<not> engine_held st model" by (auto simp: engine_held_def)
    then have eq: "initializeEngine model signal sc st = initialize_fresh model signal sc st"
      by (cases rule: initializeEngine_cases [of st model signal sc]) simp_all
    note c = initializeEngine_control [of st model signal sc]
    show ?thesis
    proof (cases rule: initialize_fresh_cases [of signal sc st model])
      case (created engine2 st')
      let ?s = "st'\<lparr>engineRef := Some engine2, currentModelRef := Some model,
            statusText := StatusReady, progress := 100, isInitializing := False\<rparr>"
      have "initializeEngine model signal2 sc2 ?s = (Inr engine2, ?s)"
        by (simp add: initializeEngine_def)
      with created eq show ?thesis by simp
    next
      case (failed e st')
      with eq c not_held show ?thesis by (simp add: engine_created_def)
    qed
  qed
  have reset: "engineRef (resetEngine st) = None \<and> currentModelRef (resetEngine st) = None \<and>
     engineRef (handleModelChange v st) = None \<and> currentModelRef (handleModelChange v st) = None \<and>
     fst (initializeEngine model signal sc (resetEngine st)) = create_engine sc \<and>
     fst (initializeEngine model signal sc (handleModelChange v st)) = create_engine sc"
    by (simp add: initializeEngine_def resetEngine_def handleModelChange_def addLog_def fresh)
  from reuse create reset show ?thesis by blast
qed

theorem engine_reuse_and_reset_witness:
  "engineRef loaded_state = Some 7 \<and> currentModelRef loaded_state = Some ''m1'' \<and>
   initializeEngine ''m1'' None circle_script loaded_state = (Inr 7, loaded_state) \<and>
   currentModelRef loaded_state \<noteq> Some ''m2'' \<and> create_engine second_script = Inr 8 \<and>
   fst (initializeEngine ''m2'' None second_script loaded_state) = Inr 8 \<and>
   engineRef (snd (initializeEngine ''m2'' None second_script loaded_state)) = Some 8 \<and>
   currentModelRef (snd (initializeEngine ''m2'' None second_script loaded_state)) = Some ''m2'' \<and>
   fst (initializeEngine ''m2'' None circle_script
          (snd (initializeEngine ''m2'' None second_script loaded_state))) = Inr 8 \<and>
   create_engine no_gpu_script = Inl no_gpu_error \<and>
   \<not> engine_held (snd (initializeEngine ''m2'' None no_gpu_script loaded_state)) ''m2'' \<and>
   engineRef (resetEngine loaded_state) = None \<and>
   fst (initializeEngine ''m1'' None circle_script (resetEngine loaded_state)) = Inr 7"
proof -
  have l: "engineRef loaded_state = Some 7" "currentModelRef loaded_state = Some ''m1''"
    "currentModelRef loaded_state \<noteq> Some ''m2''"
    by (simp_all add: loaded_state_def idle_state_def)
  have c: "create_engine second_script = Inr 8" "create_engine no_gpu_script = Inl no_gpu_error"
    "create_engine circle_script = Inr 7"
    by (simp_all add: second_script_def no_gpu_script_def circle_script_def)
  note same = engine_reuse_and_reset [of loaded_state 7 "''m1''" None circle_script None
      circle_script "''m2''"]
  note other = engine_reuse_and_reset [of loaded_state 7 "''m2''" None second_script None
      circle_script "''m2''"]
  note failing = engine_reuse_and_reset [of loaded_state 7 "''m2''" None no_gpu_script None
      circle_script "''m2''"]
  from same l c have 1: "initializeEngine ''m1'' None circle_script loaded_state = (Inr 7, loaded_state)"
    "engineRef (resetEngine loaded_state) = None"
    "fst (initializeEngine ''m1'' None circle_script (resetEngine loaded_state)) = Inr 7"
    by simp_all
  from other l c have 2: "fst (initializeEngine ''m2'' None second_script loaded_state) = Inr 8"
    "engineRef (snd (initializeEngine ''m2'' None second_script loaded_state)) = Some 8"
    "currentModelRef (snd (initializeEngine ''m2'' None second_script loaded_state)) = Some ''m2''"
    "fst (initializeEngine ''m2'' None circle_script
          (snd (initializeEngine ''m2'' None second_script loaded_state))) = Inr 8"
    by simp_all
  from failing l c
  have 3: "\<not> engine_held (snd (initializeEngine ''m2'' None no_gpu_script loaded_state)) ''m2''"
    by simp
  from l c 1 2 3 show ?thesis by simp
qed




text \<open>
  C10. The live preview never moves the selection: \<^verbatim>\<open>onChunk\<close> leaves
  \<^verbatim>\<open>selectedSVGIndex\<close> as it is for every fragment, and so do the whole stream of an
  attempt, a click on stop or retry or the selection of another model, and the whole
  \<^verbatim>\<open>generateSVG\<close> call. Across the
  loop the index is written on success only, where it becomes the index of the last valid
  block; on every other exit it is the one the loop started with.
\<close>

theorem preview_keeps_selection:
  "selectedSVGIndex (onChunk isSvg chunk st) = selectedSVGIndex st \<and>
   selectedSVGIndex (snd (snd (stream_run isSvg signal evs full st))) = selectedSVGIndex st \<and>
   selectedSVGIndex (snd (generateSVG isSvg rq signal attempt sc st)) = selectedSVGIndex st \<and>
   selectedSVGIndex (click a st) = selectedSVGIndex st \<and>
   selectedSVGIndex (snd (snd (generation_loop isSvg pf rq env attempt st)))
     = selection_after st (fst (generation_loop isSvg pf rq env attempt st))"
  using kept_onChunk [of st isSvg chunk] kept_stream_run [of st isSvg signal evs full]
    kept_generateSVG [of st isSvg rq signal attempt sc] kept_click [of st a]
    loop_selection [of isSvg pf rq env attempt st]
  by (simp add: kept_def)

text \<open>
  C5. The blocks extracted from a buffer depend on the buffer alone. The valid blocks
  that the final check computes are the matches of the buffer that pass \<open>isSvg\<close>,
  whatever the state of the component; computing them again in the state the first
  computation left gives the same list; the preview of \<^verbatim>\<open>onChunk\<close>, when it finds a
  match, is that same function of the accumulated text; and a successful
  \<^verbatim>\<open>handleGenerate\<close> holds exactly that list.
\<close>

theorem extraction_is_pure:
  "fst (validate_all isSvg pf sz (match_global buf) [] st) = filter isSvg (match_global buf) \<and>
   fst (validate_all isSvg pf sz (match_global buf) []
          (snd (validate_all isSvg pf sz (match_global buf) [] st)))
     = fst (validate_all isSvg pf sz (match_global buf) [] st) \<and>
   (chunk \<noteq> [] \<and> match_global (currentOutput st @ chunk) \<noteq> [] \<longrightarrow>
      extractedSVGs (onChunk isSvg chunk st) = filter isSvg (match_global (currentOutput st @ chunk))) \<and>
   (\<forall>valid st'. process_response isSvg pf rq attempt buf st = Return (Succeeded valid) st' \<longrightarrow>
      valid = filter isSvg (match_global buf))"
proof (intro conjI impI allI)
  show "fst (validate_all isSvg pf sz (match_global buf) [] st) = filter isSvg (match_global buf)"
    by (simp add: validate_all_valid)
  show "fst (validate_all isSvg pf sz (match_global buf) []
          (snd (validate_all isSvg pf sz (match_global buf) [] st)))
     = fst (validate_all isSvg pf sz (match_global buf) [] st)"
    by (simp add: validate_all_valid)
next
  assume a: "chunk \<noteq> [] \<and> match_global (currentOutput st @ chunk) \<noteq> []"
  then obtain m ms where "match_global (currentOutput st @ chunk) = m # ms"
    by (cases "match_global (currentOutput st @ chunk)") auto
  then have "js_match (currentOutput st @ chunk) = Some (match_global (currentOutput st @ chunk))"
    and "0 < length (match_global (currentOutput st @ chunk))"
    by (simp_all add: js_match_def)
  with a show "extractedSVGs (onChunk isSvg chunk st)
      = filter isSvg (match_global (currentOutput st @ chunk))"
    by (simp add: onChunk_def Let_def)
next
  fix valid st'
  assume r: "process_response isSvg pf rq attempt buf st = Return (Succeeded valid) st'"
  show "valid = filter isSvg (match_global buf)"
  proof (cases rule: process_response_cases [of buf isSvg pf rq attempt st])
    case no_match
    with r show ?thesis by (simp add: no_candidates_def Let_def split: if_splits)
  next
    case (invalid logs)
    with r show ?thesis by (simp add: none_valid_def Let_def split: if_splits)
  next
    case (valid logs)
    with r show ?thesis by simp
  qed
qed

theorem extraction_is_pure_witness:
  "circle_svg \<noteq> [] \<and> match_global (currentOutput idle_state @ circle_svg) \<noteq> [] \<and>
   extractedSVGs (onChunk accepts_examples circle_svg idle_state) = [circle_svg] \<and>
   process_response accepts_examples parse_demo circle_request 1 circle_svg idle_state
     = Return (Succeeded [circle_svg])
         (accept circle_request 1 [circle_svg] (addLog LogCompleted idle_state))"
proof -
  have m: "match_global circle_svg = [circle_svg]" by code_simp
  have c: "currentOutput idle_state = []" "circle_svg \<noteq> []" "accepts_examples circle_svg"
    by (simp_all add: idle_state_def circle_svg_def accepts_examples_def)
  have p: "process_response accepts_examples parse_demo circle_request 1 circle_svg idle_state
     = Return (Succeeded [circle_svg])
         (accept circle_request 1 [circle_svg] (addLog LogCompleted idle_state))"
    by code_simp
  from extraction_is_pure [of accepts_examples parse_demo "Finite 64" circle_svg idle_state
      circle_svg circle_request 1] m c p
  show ?thesis by simp
qed

text \<open>
  C6. A candidate that passes \<open>isSvg\<close> and declares, in its \<^verbatim>\<open>viewBox\<close>, a width or
  height other than the requested size is still among the valid blocks: the response is
  handled as a success with all blocks that pass \<open>isSvg\<close>, the block is among the
  stored ones, the mismatch is written to the log as a warning, and the only toast shown
  is that of success. No retry follows, for the handling returns.
\<close>

theorem size_mismatch_is_accepted:
  assumes "svg \<in> set (match_global fullResponse)" "isSvg svg" "viewBox_match svg = Some vb"
    and "strict_neq (parse_entry pf (js_index (split_ws vb) 2)) (size_px rq) \<or>
         strict_neq (parse_entry pf (js_index (split_ws vb) 3)) (size_px rq)"
  shows "\<exists>st'. process_response isSvg pf rq attempt fullResponse st
           = Return (Succeeded (filter isSvg (match_global fullResponse))) st' \<and>
         svg \<in> set (filter isSvg (match_global fullResponse)) \<and>
         svg \<in> set (extractedSVGs st') \<and>
         LogSizeMismatch (size_px rq) (parse_entry pf (js_index (split_ws vb) 2))
           (parse_entry pf (js_index (split_ws vb) 3)) \<in> set (debugLogs st') \<and>
         toasts st' = toasts st @ [ToastGenerated (length (filter isSvg (match_global fullResponse)))
                                     (if attempt > 1 then Some attempt else None)]"
proof -
  let ?valid = "filter isSvg (match_global fullResponse)"
  let ?m = "LogSizeMismatch (size_px rq) (parse_entry pf (js_index (split_ws vb) 2))
           (parse_entry pf (js_index (split_ws vb) 3))"
  from assms(1,2) have in_valid: "svg \<in> set ?valid" by simp
  then have ne: "?valid \<noteq> []" by (metis empty_iff empty_set)
  have warn: "?m \<in> set (debugLogs (snd (validate_all isSvg pf (size_px rq)
      (match_global fullResponse) [] (addLog LogCompleted st))))"
    using assms
    by (rule validate_all_warns [of svg "match_global fullResponse" isSvg vb pf "size_px rq"])
  show ?thesis
  proof (cases rule: process_response_cases [of fullResponse isSvg pf rq attempt st])
    case no_match
    with assms(1) show ?thesis by simp
  next
    case (invalid logs)
    with ne show ?thesis by simp
  next
    case (valid logs)
    let ?st' = "accept rq attempt ?valid (st\<lparr>debugLogs := debugLogs st @ LogCompleted # logs\<rparr>)"
    from warn valid(2) have "?m \<in> set (debugLogs ?st')"
      by (simp add: accept_def show_toast_def addLog_def)
    moreover have "extractedSVGs ?st' = ?valid"
      and "toasts ?st' = toasts st @ [ToastGenerated (length ?valid)
                                     (if attempt > 1 then Some attempt else None)]"
      by (simp_all add: accept_def show_toast_def addLog_def)
    ultimately show ?thesis using valid(3) in_valid by simp
  qed
qed

theorem size_mismatch_is_accepted_witness:
  "small_svg \<in> set (match_global small_svg) \<and> accepts_examples small_svg \<and>
   viewBox_match small_svg = Some ''0 0 32 32'' \<and>
   strict_neq (parse_entry parse_demo (js_index (split_ws ''0 0 32 32'') 2)) (size_px circle_request) \<and>
   (\<exists>st'. process_response accepts_examples parse_demo circle_request 1 small_svg idle_state
           = Return (Succeeded [small_svg]) st' \<and>
      LogSizeMismatch (Finite 64) (Finite 32) (Finite 32) \<in> set (debugLogs st'))"
proof -
  have m: "match_global small_svg = [small_svg]" by code_simp
  have a: "accepts_examples small_svg" by (simp add: accepts_examples_def)
  have v: "viewBox_match small_svg = Some ''0 0 32 32''" by code_simp
  have p: "parse_entry parse_demo (js_index (split_ws ''0 0 32 32'') 2) = Finite 32"
    "parse_entry parse_demo (js_index (split_ws ''0 0 32 32'') 3) = Finite 32"
    by code_simp+
  have s: "size_px circle_request = Finite 64" by (simp add: circle_request_def)
  have n: "strict_neq (Finite 32) (Finite 64)" by (simp add: strict_neq_def)
  from size_mismatch_is_accepted [of small_svg small_svg accepts_examples "''0 0 32 32''"
      parse_demo circle_request 1 idle_state] m a v p s n
  show ?thesis by auto
qed

text \<open>
  C7. When the response of an attempt holds at least one valid block, the loop ends at
  that attempt with success; the stored blocks are all valid blocks of the response, the
  selected index is that of the last one, and the model of the request is added to the
  set of cached models.
\<close>

theorem valid_block_succeeds:
  assumes "attempt < maxRetries" "\<not> shouldStopRef st"
    and "script_result (engine_held st (modelId rq)) (env (Suc attempt)) = Inr fullResponse"
    and "filter isSvg (match_global fullResponse) \<noteq> []"
  shows "\<exists>st'. generation_loop isSvg pf rq env attempt st
           = (Succeeded (filter isSvg (match_global fullResponse)), Suc attempt, st') \<and>
         extractedSVGs st' = filter isSvg (match_global fullResponse) \<and>
         selectedSVGIndex st' = int (length (filter isSvg (match_global fullResponse))) - 1 \<and>
         filter isSvg (match_global fullResponse) ! nat (selectedSVGIndex st')
           = last (filter isSvg (match_global fullResponse)) \<and>
         cachedModels st' = insert (modelId rq) (cachedModels st)"
proof -
  let ?valid = "filter isSvg (match_global fullResponse)"
  let ?sc = "env (Suc attempt)"
  let ?st2 = "after_call isSvg rq ?sc (Suc attempt) st"
  have body: "attempt_body isSvg pf rq ?sc (Suc attempt) st
      = process_response isSvg pf rq (Suc attempt) fullResponse ?st2"
    using assms(3) by (cases rule: attempt_body_cases [of st rq ?sc isSvg pf "Suc attempt"]) simp_all
  have k: "cachedModels ?st2 = cachedModels st"
    using after_call_control [of st isSvg rq ?sc "Suc attempt"] by (simp add: kept_def)
  show ?thesis
  proof (cases rule: process_response_cases [of fullResponse isSvg pf rq "Suc attempt" ?st2])
    case no_match
    with assms(4) show ?thesis by simp
  next
    case (invalid logs)
    with assms(4) show ?thesis by simp
  next
    case (valid logs)
    let ?st' = "accept rq (Suc attempt) ?valid (?st2\<lparr>debugLogs := debugLogs ?st2 @ LogCompleted # logs\<rparr>)"
    have loop: "generation_loop isSvg pf rq env attempt st = (Succeeded ?valid, Suc attempt, ?st')"
      using loop_step [OF assms(1,2), of isSvg pf rq env] body valid(3) by simp
    have f: "extractedSVGs ?st' = ?valid" "selectedSVGIndex ?st' = int (length ?valid) - 1"
      "cachedModels ?st' = insert (modelId rq) (cachedModels st)"
      using k by (simp_all add: accept_def show_toast_def addLog_def)
    have "nat (int (length ?valid) - 1) = length ?valid - 1" by simp
    with assms(4) have "?valid ! nat (int (length ?valid) - 1) = last ?valid"
      by (simp add: last_conv_nth)
    with loop f show ?thesis by simp
  qed
qed

theorem valid_block_succeeds_witness:
  "\<exists>st'. handleGenerate accepts_examples parse_demo circle_request circle_env idle_state
           = (Succeeded [circle_svg], 1, st') \<and>
         extractedSVGs st' = [circle_svg] \<and> selectedSVGIndex st' = 0 \<and>
         cachedModels st' = {''m1''}"
proof -
  let ?st = "start_generation circle_request idle_state"
  have a: "(0::nat) < maxRetries" by (simp add: maxRetries_def)
  have b: "\<not> shouldStopRef ?st" by code_simp
  have c: "script_result (engine_held ?st (modelId circle_request)) (circle_env (Suc 0)) = Inr circle_svg"
    by code_simp
  have m: "filter accepts_examples (match_global circle_svg) = [circle_svg]" by code_simp
  have d: "cachedModels ?st = {}" "modelId circle_request = ''m1''"
    by (simp_all add: start_generation_def addLog_def idle_state_def circle_request_def)
  from valid_block_succeeds [of 0 ?st circle_request circle_env circle_svg accepts_examples parse_demo]
    a b c m d
  show ?thesis by (auto simp: handleGenerate_def)
qed

text \<open>
  C1. The ceiling is 10, and no call of \<^verbatim>\<open>handleGenerate\<close> makes more than 10
  attempts. When every attempt is recoverable (the user does not press stop, and the
  attempt finds no candidate, finds no valid block, or fails with a value that is not an
  abort error), whatever the mix of these causes, the call makes exactly 10 attempts and
  then ends as a fatal failure whose cause is that of the tenth attempt.
\<close>

theorem retry_bound:
  "maxRetries = 10 \<and>
   fst (snd (handleGenerate isSvg pf rq env st)) \<le> maxRetries \<and>
   ((\<forall>k \<in> {1..maxRetries}.
       recoverable isSvg (reuse_at env (engine_held st (modelId rq)) (k - 1)) (env k)) \<longrightarrow>
    (\<exists>c st'. attempt_cause isSvg (reuse_at env (engine_held st (modelId rq)) (maxRetries - 1))
                (env maxRetries) = Some c \<and>
       handleGenerate isSvg pf rq env st = (FatalFailed c, maxRetries, st')))"
proof (intro conjI impI)
  show "maxRetries = 10" by (simp add: maxRetries_def)
  show "fst (snd (handleGenerate isSvg pf rq env st)) \<le> maxRetries"
    using loop_bound [of isSvg pf rq env 0 "start_generation rq st"]
    by (simp add: handleGenerate_def)
next
  let ?st = "start_generation rq st"
  let ?r = "engine_held st (modelId rq)"
  assume all: "\<forall>k \<in> {1..maxRetries}. recoverable isSvg (reuse_at env ?r (k - 1)) (env k)"
  note s = start_generation_control [of rq st "modelId rq"]
  have "0 < maxRetries" by (simp add: maxRetries_def)
  moreover from s have "\<not> shouldStopRef ?st" by simp
  moreover from s have "engine_held ?st (modelId rq) = reuse_at env ?r 0" by simp
  moreover from all have "\<forall>k. 0 < k \<and> k \<le> maxRetries \<longrightarrow>
      recoverable isSvg (reuse_at env ?r (k - 1)) (env k)" by auto
  ultimately show "\<exists>c st'. attempt_cause isSvg (reuse_at env ?r (maxRetries - 1)) (env maxRetries) = Some c \<and>
       handleGenerate isSvg pf rq env st = (FatalFailed c, maxRetries, st')"
    unfolding handleGenerate_def by (rule loop_recoverable)
qed

theorem retry_bound_witness:
  "recoverable accepts_examples False (mixed_env 1) \<and>
   recoverable accepts_examples True (mixed_env 2) \<and>
   recoverable accepts_examples True (mixed_env 3) \<and>
   (\<exists>st'. handleGenerate accepts_examples parse_demo circle_request mixed_env idle_state
           = (FatalFailed NoMatchFound, 10, st'))"
proof -
  have t: "recoverable accepts_examples True broken_script"
    "recoverable accepts_examples True no_graphics_script"
    "recoverable accepts_examples True rejected_script"
    by code_simp+
  have f: "recoverable accepts_examples False broken_script"
    "recoverable accepts_examples False no_graphics_script"
    "recoverable accepts_examples False rejected_script"
    by code_simp+
  have r: "recoverable accepts_examples b broken_script"
    "recoverable accepts_examples b no_graphics_script"
    "recoverable accepts_examples b rejected_script" for b
    using t f by (cases b; simp)+
  then have all: "\<forall>k \<in> {1..maxRetries}.
       recoverable accepts_examples
         (reuse_at mixed_env (engine_held idle_state (modelId circle_request)) (k - 1)) (mixed_env k)"
    by (simp add: mixed_env_def)
  have c: "attempt_cause accepts_examples
      (reuse_at mixed_env (engine_held idle_state (modelId circle_request)) (maxRetries - 1))
      (mixed_env maxRetries) = Some NoMatchFound"
    by code_simp
  have m: "mixed_env 1 = no_graphics_script" "mixed_env 2 = rejected_script"
    "mixed_env 3 = broken_script"
    by (simp_all add: mixed_env_def)
  from retry_bound [of accepts_examples parse_demo circle_request mixed_env idle_state] all c
  have "\<exists>st'. handleGenerate accepts_examples parse_demo circle_request mixed_env idle_state
           = (FatalFailed NoMatchFound, 10, st')"
    by auto
  with t f m show ?thesis by simp
qed




text \<open>
  C3, as stated, fails on the tenth attempt, where a skip ends the call with the exit for
  exhausted retries and no attempt follows; it fails when the interrupted stream ends
  normally with a valid block, which is accepted as a success; and after the user
  selected another model during the stream, which clears the engine, a skip interrupts
  nothing.
\<close>

theorem skip_on_last_attempt_counterexample:
  "StreamClick PressRetry \<in> set (stream_events (skip_env 10)) \<and>
   stream_end (skip_env 10) = Some abortError \<and>
   fst (handleGenerate accepts_examples parse_demo circle_request skip_env idle_state)
     = FatalFailed MaxRetriesReached \<and>
   fst (snd (handleGenerate accepts_examples parse_demo circle_request skip_env idle_state)) = 10 \<and>
   StreamClick PressRetry \<in> set (stream_events (skip_late_env 1)) \<and>
   fst (handleGenerate accepts_examples parse_demo circle_request skip_late_env idle_state)
     = Succeeded [circle_svg] \<and>
   fst (snd (handleGenerate accepts_examples parse_demo circle_request skip_late_env idle_state)) = 1 \<and>
   StreamClick PressRetry \<in> set (stream_events (switch_skip_env 1)) \<and>
   interrupted (snd (snd (handleGenerate accepts_examples parse_demo circle_request switch_skip_env
       idle_state))) = []"
  by code_simp

text \<open>
  C3, amended, for an attempt during which stop is not pressed. \<^verbatim>\<open>handleRetry\<close> sets
  no flag, so what follows a skip depends on how the interrupted call settles.

  The interrupt: when the user presses retry while the attempt streams, a controller is
  held, an engine is there, the stream was opened and no other model was selected during
  the stream, the interrupt of that engine is called.

  The call throws an abort error: only this attempt ends. A controller constructed after
  the skip replaces the one held, and the loop goes on at the next ordinal, so the budget
  went down by exactly one. Before the tenth attempt the next attempt follows, with an
  empty buffer and the new controller; on the tenth attempt the call ends with the exit
  for exhausted retries.

  The call throws another value before the tenth attempt: the loop goes on at the next
  ordinal in the same way, so a skip consumes what a transport failure consumes.

  The call returns its response: the response is handled like that of any attempt.
\<close>

theorem skip_starts_next_attempt:
  assumes lt: "attempt < maxRetries" and go: "\<not> shouldStopRef st"
    and quiet_sc: "no_stop_click (env (Suc attempt))"
  shows "(abortControllerRef st \<noteq> None \<and>
          StreamClick PressRetry \<in> set (stream_events (env (Suc attempt))) \<and>
          \<not> model_changed (stream_events (env (Suc attempt))) \<and>
          (engine_held st (modelId rq) \<or> engine_created (env (Suc attempt))) \<and>
          open_stream (env (Suc attempt)) = None \<longrightarrow>
            (\<exists>engine.
               engineRef (after_call isSvg rq (env (Suc attempt)) (Suc attempt) st) = Some engine \<and>
               engine \<in> set (interrupts_since st
                               (after_call isSvg rq (env (Suc attempt)) (Suc attempt) st)))) \<and>
         (script_result (engine_held st (modelId rq)) (env (Suc attempt)) = Inl e \<and> is_abort e \<longrightarrow>
            (\<exists>st'. attempt_body isSvg pf rq (env (Suc attempt)) (Suc attempt) st = Continue st' \<and>
               generation_loop isSvg pf rq env attempt st
                 = generation_loop isSvg pf rq env (Suc attempt) st' \<and>
               interrupted st'
                 = interrupted (after_call isSvg rq (env (Suc attempt)) (Suc attempt) st) \<and>
               engineRef st'
                 = engineRef (after_call isSvg rq (env (Suc attempt)) (Suc attempt) st) \<and>
               \<not> shouldStopRef st' \<and>
               abortControllerRef st' = Some (controllers st) \<and>
               controllers st' = Suc (controllers st) \<and>
               ((\<forall>c. abortControllerRef st = Some c \<longrightarrow> c < controllers st) \<longrightarrow>
                  abortControllerRef st' \<noteq> abortControllerRef st) \<and>
               (Suc attempt < maxRetries \<longrightarrow>
                  generation_loop isSvg pf rq env attempt st
                    = (case attempt_body isSvg pf rq (env (Suc (Suc attempt))) (Suc (Suc attempt)) st' of
                         Return t s \<Rightarrow> (t, Suc (Suc attempt), s)
                       | Continue s \<Rightarrow> generation_loop isSvg pf rq env (Suc (Suc attempt)) s) \<and>
                  currentOutput (begin_attempt (Suc (Suc attempt)) st') = [] \<and>
                  aiRawOutput (begin_attempt (Suc (Suc attempt)) st') = [] \<and>
                  abortControllerRef (begin_attempt (Suc (Suc attempt)) st')
                    = Some (controllers st)) \<and>
               (Suc attempt = maxRetries \<longrightarrow>
                  generation_loop isSvg pf rq env attempt st
                    = (FatalFailed MaxRetriesReached, maxRetries, exhausted_exit st')))) \<and>
         (script_result (engine_held st (modelId rq)) (env (Suc attempt)) = Inl e \<and> \<not> is_abort e \<and>
          Suc attempt < maxRetries \<longrightarrow>
            (\<exists>st'. attempt_body isSvg pf rq (env (Suc attempt)) (Suc attempt) st = Continue st' \<and>
               generation_loop isSvg pf rq env attempt st
                 = generation_loop isSvg pf rq env (Suc attempt) st')) \<and>
         (script_result (engine_held st (modelId rq)) (env (Suc attempt)) = Inr fullResponse \<longrightarrow>
            attempt_body isSvg pf rq (env (Suc attempt)) (Suc attempt) st
              = process_response isSvg pf rq (Suc attempt) fullResponse
                  (after_call isSvg rq (env (Suc attempt)) (Suc attempt) st))"
proof -
  let ?sc = "env (Suc attempt)"
  let ?a = "Suc attempt"
  let ?st2 = "after_call isSvg rq ?sc ?a st"
  note unfold = loop_step [OF lt go, of isSvg pf rq env]
  have interrupt: "abortControllerRef st \<noteq> None \<and>
          StreamClick PressRetry \<in> set (stream_events ?sc) \<and>
          \<not> model_changed (stream_events ?sc) \<and>
          (engine_held st (modelId rq) \<or> engine_created ?sc) \<and> open_stream ?sc = None \<longrightarrow>
            (\<exists>engine. engineRef ?st2 = Some engine \<and> engine \<in> set (interrupts_since st ?st2))"
  proof
    assume a: "abortControllerRef st \<noteq> None \<and>
          StreamClick PressRetry \<in> set (stream_events ?sc) \<and>
          \<not> model_changed (stream_events ?sc) \<and>
          (engine_held st (modelId rq) \<or> engine_created ?sc) \<and> open_stream ?sc = None"
    show "\<exists>engine. engineRef ?st2 = Some engine \<and> engine \<in> set (interrupts_since st ?st2)"
      using a quiet_sc by (intro after_call_retry) simp_all
  qed
  have skip: "\<exists>st'. attempt_body isSvg pf rq ?sc ?a st = Continue st' \<and>
               generation_loop isSvg pf rq env attempt st
                 = generation_loop isSvg pf rq env ?a st' \<and>
               interrupted st' = interrupted ?st2 \<and> engineRef st' = engineRef ?st2 \<and>
               \<not> shouldStopRef st' \<and>
               abortControllerRef st' = Some (controllers st) \<and>
               controllers st' = Suc (controllers st) \<and>
               ((\<forall>c. abortControllerRef st = Some c \<longrightarrow> c < controllers st) \<longrightarrow>
                  abortControllerRef st' \<noteq> abortControllerRef st) \<and>
               (?a < maxRetries \<longrightarrow>
                  generation_loop isSvg pf rq env attempt st
                    = (case attempt_body isSvg pf rq (env (Suc ?a)) (Suc ?a) st' of
                         Return t s \<Rightarrow> (t, Suc ?a, s)
                       | Continue s \<Rightarrow> generation_loop isSvg pf rq env (Suc ?a) s) \<and>
                  currentOutput (begin_attempt (Suc ?a) st') = [] \<and>
                  aiRawOutput (begin_attempt (Suc ?a) st') = [] \<and>
                  abortControllerRef (begin_attempt (Suc ?a) st') = Some (controllers st)) \<and>
               (?a = maxRetries \<longrightarrow>
                  generation_loop isSvg pf rq env attempt st
                    = (FatalFailed MaxRetriesReached, maxRetries, exhausted_exit st'))"
    if sr: "script_result (engine_held st (modelId rq)) ?sc = Inl e" and abort: "is_abort e"
  proof -
    let ?st' = "(addLog LogSkipping (?st2\<lparr>startTime := None\<rparr>))
        \<lparr>abortControllerRef := Some (controllers st), controllers := Suc (controllers st)\<rparr>"
    have body: "attempt_body isSvg pf rq ?sc ?a st = Continue ?st'"
      by (rule skip_step [OF go quiet_sc sr abort])
    from after_call_control [of st isSvg rq ?sc ?a] quiet_sc go
    have s2: "\<not> shouldStopRef ?st2" by (simp add: quiet_def)
    then have go': "\<not> shouldStopRef ?st'" by (simp add: addLog_def)
    have loop: "generation_loop isSvg pf rq env attempt st = generation_loop isSvg pf rq env ?a ?st'"
      using unfold body by simp
    have fields: "interrupted ?st' = interrupted ?st2" "engineRef ?st' = engineRef ?st2"
      "abortControllerRef ?st' = Some (controllers st)" "controllers ?st' = Suc (controllers st)"
      by (simp_all add: addLog_def)
    have fresh: "(\<forall>c. abortControllerRef st = Some c \<longrightarrow> c < controllers st) \<longrightarrow>
        abortControllerRef ?st' \<noteq> abortControllerRef st"
    proof
      assume "\<forall>c. abortControllerRef st = Some c \<longrightarrow> c < controllers st"
      then have "abortControllerRef st \<noteq> Some (controllers st)" by (metis less_irrefl)
      with fields(3) show "abortControllerRef ?st' \<noteq> abortControllerRef st" by simp
    qed
    have following: "generation_loop isSvg pf rq env attempt st
          = (case attempt_body isSvg pf rq (env (Suc ?a)) (Suc ?a) ?st' of
               Return t s \<Rightarrow> (t, Suc ?a, s)
             | Continue s \<Rightarrow> generation_loop isSvg pf rq env (Suc ?a) s) \<and>
        currentOutput (begin_attempt (Suc ?a) ?st') = [] \<and>
        aiRawOutput (begin_attempt (Suc ?a) ?st') = [] \<and>
        abortControllerRef (begin_attempt (Suc ?a) ?st') = Some (controllers st)"
      if budget: "?a < maxRetries"
      using loop loop_step [OF budget go', of isSvg pf rq env]
        begin_attempt_resets [of "Suc ?a" ?st'] begin_attempt_control [of ?st' "Suc ?a"]
      by (simp add: quiet_def)
    have exhausted: "generation_loop isSvg pf rq env attempt st
          = (FatalFailed MaxRetriesReached, maxRetries, exhausted_exit ?st')"
      if final: "?a = maxRetries"
    proof -
      from final have "\<not> ?a < maxRetries" by simp
      from loop_exhausted [OF this, of isSvg pf rq env ?st'] loop final show ?thesis by simp
    qed
    from body loop fields go' fresh following exhausted show ?thesis by blast
  qed
  have transport: "\<exists>st'. attempt_body isSvg pf rq ?sc ?a st = Continue st' \<and>
               generation_loop isSvg pf rq env attempt st
                 = generation_loop isSvg pf rq env ?a st'"
    if sr: "script_result (engine_held st (modelId rq)) ?sc = Inl e" and other: "\<not> is_abort e"
      and budget: "?a < maxRetries"
  proof (cases rule: attempt_body_cases [of st rq ?sc isSvg pf ?a])
    case (returned fullResponse)
    with sr show ?thesis by simp
  next
    case (threw e')
    with sr have "e' = e" by simp
    with threw(2) other budget
    have "attempt_body isSvg pf rq ?sc ?a st
        = Continue (addLog LogRetrying (addLog (LogFailed ?a e) (?st2\<lparr>startTime := None\<rparr>)))"
      by (simp add: handle_error_def Let_def)
    with unfold show ?thesis by simp
  qed
  have normal: "attempt_body isSvg pf rq ?sc ?a st
              = process_response isSvg pf rq ?a fullResponse ?st2"
    if sr: "script_result (engine_held st (modelId rq)) ?sc = Inr fullResponse"
    using sr by (cases rule: attempt_body_cases [of st rq ?sc isSvg pf ?a]) simp_all
  from interrupt skip transport normal show ?thesis by blast
qed

theorem skip_starts_next_attempt_witness:
  "Suc 0 < maxRetries \<and> no_stop_click (skip_env (Suc 0)) \<and>
   StreamClick PressRetry \<in> set (stream_events (skip_env (Suc 0))) \<and>
   \<not> model_changed (stream_events (skip_env (Suc 0))) \<and>
   stream_end (skip_env (Suc 0)) = Some abortError \<and> is_abort abortError \<and>
   (\<exists>engine.
      engineRef (after_call accepts_examples circle_request (skip_env (Suc 0)) (Suc 0)
                   (start_generation circle_request idle_state)) = Some engine \<and>
      engine \<in> set (interrupts_since (start_generation circle_request idle_state)
                      (after_call accepts_examples circle_request (skip_env (Suc 0)) (Suc 0)
                         (start_generation circle_request idle_state)))) \<and>
   (\<exists>st'. attempt_body accepts_examples parse_demo circle_request (skip_env (Suc 0)) (Suc 0)
            (start_generation circle_request idle_state) = Continue st' \<and>
      abortControllerRef (start_generation circle_request idle_state) = Some 0 \<and>
      abortControllerRef st' = Some 1 \<and> controllers st' = 2 \<and>
      currentOutput (begin_attempt (Suc (Suc 0)) st') = [] \<and>
      abortControllerRef (begin_attempt (Suc (Suc 0)) st') = Some 1) \<and>
   (\<exists>st'. generation_loop accepts_examples parse_demo circle_request skip_env 9
            (start_generation circle_request idle_state)
          = (FatalFailed MaxRetriesReached, 10, st')) \<and>
   \<not> is_abort (ErrorObject ''Error'' ''device lost'') \<and>
   (\<exists>st'. attempt_body accepts_examples parse_demo circle_request broken_script (Suc 2)
            (start_generation circle_request idle_state) = Continue st') \<and>
   attempt_body accepts_examples parse_demo circle_request (skip_late_env (Suc 0)) (Suc 0)
       (start_generation circle_request idle_state)
     = process_response accepts_examples parse_demo circle_request (Suc 0) circle_svg
         (after_call accepts_examples circle_request (skip_late_env (Suc 0)) (Suc 0)
            (start_generation circle_request idle_state))"
proof -
  let ?st = "start_generation circle_request idle_state"
  let ?device = "ErrorObject ''Error'' ''device lost''"
  have a: "(0::nat) < maxRetries" "Suc 0 < maxRetries" "(9::nat) < maxRetries"
    "Suc 9 = maxRetries" "(2::nat) < maxRetries" "Suc 2 < maxRetries" "maxRetries = 10"
    by (simp_all add: maxRetries_def)
  have s: "\<not> shouldStopRef ?st" "abortControllerRef ?st = Some 0" "controllers ?st = Suc 0"
    "abortControllerRef ?st \<noteq> None"
    using start_generation_control [of circle_request idle_state "''m1''"]
    by (simp_all add: idle_state_def)
  then have ids: "\<forall>c. abortControllerRef ?st = Some c \<longrightarrow> c < controllers ?st" by simp
  have c: "no_stop_click (skip_env (Suc 0))"
    "StreamClick PressRetry \<in> set (stream_events (skip_env (Suc 0)))"
    "\<not> model_changed (stream_events (skip_env (Suc 0)))"
    "engine_created (skip_env (Suc 0))"
    "open_stream (skip_env (Suc 0)) = None"
    "stream_end (skip_env (Suc 0)) = Some abortError"
    "is_abort abortError"
    by code_simp+
  have r1: "script_result (engine_held ?st (modelId circle_request)) (skip_env (Suc 0))
            = Inl abortError"
    by code_simp
  have k: "skip_env (Suc 9) = skip_env (Suc 0)" by (simp add: skip_env_def)
  have r3: "script_result (engine_held ?st (modelId circle_request)) broken_script = Inl ?device"
    "\<not> is_abort ?device" "no_stop_click broken_script"
    by code_simp+
  have r4: "script_result (engine_held ?st (modelId circle_request)) (skip_late_env (Suc 0))
            = Inr circle_svg"
    "no_stop_click (skip_late_env (Suc 0))"
    by code_simp+
  note first = skip_starts_next_attempt [where env = skip_env and attempt = 0 and st = ?st
      and rq = circle_request and isSvg = accepts_examples and pf = parse_demo
      and e = abortError and fullResponse = circle_svg, OF a(1) s(1) c(1)]
  note tenth = skip_starts_next_attempt [where env = skip_env and attempt = 9 and st = ?st
      and rq = circle_request and isSvg = accepts_examples and pf = parse_demo
      and e = abortError and fullResponse = circle_svg, OF a(3) s(1), unfolded k, OF c(1)]
  note failing = skip_starts_next_attempt [where env = "\<lambda>k. broken_script" and attempt = 2
      and st = ?st and rq = circle_request and isSvg = accepts_examples and pf = parse_demo
      and e = ?device and fullResponse = circle_svg, OF a(5) s(1) r3(3)]
  note late = skip_starts_next_attempt [where env = skip_late_env and attempt = 0 and st = ?st
      and rq = circle_request and isSvg = accepts_examples and pf = parse_demo
      and e = abortError and fullResponse = circle_svg, OF a(1) s(1) r4(2)]
  from first [THEN conjunct1] s(4) c
  have 1: "\<exists>engine.
      engineRef (after_call accepts_examples circle_request (skip_env (Suc 0)) (Suc 0) ?st)
        = Some engine \<and>
      engine \<in> set (interrupts_since ?st
                      (after_call accepts_examples circle_request (skip_env (Suc 0)) (Suc 0) ?st))"
    by simp
  from first [THEN conjunct2, THEN conjunct1] r1 c(7) a(2) ids
  obtain st' where
    "attempt_body accepts_examples parse_demo circle_request (skip_env (Suc 0)) (Suc 0) ?st
       = Continue st'"
    "abortControllerRef st' = Some (controllers ?st)" "controllers st' = Suc (controllers ?st)"
    "currentOutput (begin_attempt (Suc (Suc 0)) st') = []"
    "abortControllerRef (begin_attempt (Suc (Suc 0)) st') = Some (controllers ?st)"
    by blast
  with s have 2: "\<exists>st'. attempt_body accepts_examples parse_demo circle_request (skip_env (Suc 0))
            (Suc 0) ?st = Continue st' \<and>
      abortControllerRef ?st = Some 0 \<and>
      abortControllerRef st' = Some 1 \<and> controllers st' = 2 \<and>
      currentOutput (begin_attempt (Suc (Suc 0)) st') = [] \<and>
      abortControllerRef (begin_attempt (Suc (Suc 0)) st') = Some 1"
    by auto
  from tenth [THEN conjunct2, THEN conjunct1] r1 c(7) a(4)
  obtain st'' where "generation_loop accepts_examples parse_demo circle_request skip_env 9 ?st
       = (FatalFailed MaxRetriesReached, maxRetries, exhausted_exit st'')"
    by blast
  with a(7) have 3: "\<exists>st'. generation_loop accepts_examples parse_demo circle_request skip_env 9 ?st
          = (FatalFailed MaxRetriesReached, 10, st')"
    by simp
  from failing [THEN conjunct2, THEN conjunct2, THEN conjunct1] r3 a(6)
  have 4: "\<exists>st'. attempt_body accepts_examples parse_demo circle_request broken_script (Suc 2) ?st
       = Continue st'"
    by blast
  from late [THEN conjunct2, THEN conjunct2, THEN conjunct2] r4(1)
  have 5: "attempt_body accepts_examples parse_demo circle_request (skip_late_env (Suc 0)) (Suc 0) ?st
     = process_response accepts_examples parse_demo circle_request (Suc 0) circle_svg
         (after_call accepts_examples circle_request (skip_late_env (Suc 0)) (Suc 0) ?st)"
    by simp
  from a(2) c r3(2) 1 2 3 4 5 show ?thesis by simp
qed

end
